theory Spec2Isabelle
  imports Complex_Main
begin

section \<open>Errors\<close>

text \<open>
  The Python code raises plain \<open>Exception\<close> objects with a message, fails assertions, and
  relies on the exceptions of the interpreter and of numpy.  Each one is a value here.
  The first five constructors are the explicit \<open>raise\<close>/\<open>assert\<close> statements of the
  source, named as the specification names them; the others are the implicit failures of
  Python (\<open>d[k]\<close> on a missing key, a missing attribute, \<open>list.index\<close>, ...).
\<close>

datatype error =
    DuplicateNode        \<comment> \<open>graph.py: 'node name ... already in use'\<close>
  | ArityMismatch        \<comment> \<open>graph.py: 'Inputs do not match, expected ..., received ...'\<close>
  | NoInputNodes         \<comment> \<open>graph.py: assert in topological\_sort\<close>
  | MissingParameter     \<comment> \<open>graph.py: 'missing value for parameter ...'\<close>
  | NoForwardPass        \<comment> \<open>graph.py: 'no output\_table, ...'\<close>
  | AssertionError       \<comment> \<open>the other assert statements\<close>
  | KeyError
  | AttributeError
  | TypeError
  | ValueError
  | IndexError
  | RecursionError

section \<open>Tensors\<close>

text \<open>
  A numpy array is a shape and its elements in row-major order.  The element type is left
  abstract: only the syntactic operations \<open>+\<close> and \<open>1\<close> are used on it, with no law
  assumed, so that floating-point arithmetic is an instance.
\<close>

record 'a tensor =
  shape :: "nat list"
  data :: "'a list"

fun size_from_shape :: "nat list \<Rightarrow> nat" where
  "size_from_shape [] = 1"
| "size_from_shape (d # ds) = d * size_from_shape ds"

definition ones :: "nat list \<Rightarrow> ('a::one) tensor" where
  "ones s = \<lparr>shape = s, data = replicate (size_from_shape s) 1\<rparr>"

text \<open>Broadcasting of two shapes, aligned on their last dimension (numpy's rule).\<close>

fun bshape_rev :: "nat list \<Rightarrow> nat list \<Rightarrow> nat list option" where
  "bshape_rev [] ys = Some ys"
| "bshape_rev (x # xs) [] = Some (x # xs)"
| "bshape_rev (x # xs) (y # ys) =
     (if x = y \<or> y = 1 then map_option ((#) x) (bshape_rev xs ys)
      else if x = 1 then map_option ((#) y) (bshape_rev xs ys)
      else None)"

definition broadcast_shapes :: "nat list \<Rightarrow> nat list \<Rightarrow> nat list option" where
  "broadcast_shapes s t = map_option rev (bshape_rev (rev s) (rev t))"

definition chunks :: "nat \<Rightarrow> nat \<Rightarrow> 'a list \<Rightarrow> 'a list list" where
  "chunks n k xs = map (\<lambda>i. take n (drop (i * n) xs)) [0..<k]"

text \<open>
  \<open>bcast s t xs\<close>: the elements \<open>xs\<close> of an array of shape \<open>s\<close> stretched to the shape
  \<open>t\<close> of the same rank; a dimension of size one is repeated.
\<close>

fun bcast :: "nat list \<Rightarrow> nat list \<Rightarrow> 'a list \<Rightarrow> 'a list" where
  "bcast (d # ds) (e # es) xs =
     concat (map (bcast ds es)
       (if d = e then chunks (size_from_shape ds) d xs else replicate e xs))"
| "bcast _ _ xs = xs"

definition pad_shape :: "nat \<Rightarrow> nat list \<Rightarrow> nat list" where
  "pad_shape r s = replicate (r - length s) 1 @ s"

text \<open>\<open>A + B\<close> on numpy arrays: elementwise after broadcasting, \<open>ValueError\<close> when the
  shapes do not broadcast.\<close>

definition tadd :: "('a::plus) tensor \<Rightarrow> 'a tensor \<Rightarrow> error + 'a tensor" where
  "tadd A B =
     (case broadcast_shapes (shape A) (shape B) of
        None \<Rightarrow> Inl ValueError
      | Some s \<Rightarrow>
          Inr \<lparr>shape = s,
               data = map2 (+) (bcast (pad_shape (length s) (shape A)) s (data A))
                               (bcast (pad_shape (length s) (shape B)) s (data B))\<rparr>)"

section \<open>Operations (operations.py)\<close>

text \<open>
  An operation is any object with \<open>num_inputs\<close>, \<open>forward\<close> and \<open>backward\<close>.  \<open>OpValue\<close>
  is the only class with state (the attribute \<open>X\<close>, absent until \<open>assign\<close> is called) and
  the only one with \<open>assign\<close>; it has no \<open>backward\<close>.  Operation objects have identity and
  several nodes can hold the same one: \<open>OpValue i\<close> is the instance number \<open>i\<close> of the
  class, and the attribute \<open>X\<close> of every instance is kept in a store, \<open>None\<close> where the
  attribute is absent.  Every other operation has no state; it is given by its arity and
  its two methods, which may raise.
\<close>

datatype 'a op =
    OpValue nat
  | Op nat "'a tensor list \<Rightarrow> error + 'a tensor"
         "'a tensor \<Rightarrow> 'a tensor list \<Rightarrow> error + 'a tensor list"

type_synonym 'a assigned = "nat \<Rightarrow> 'a tensor option"

fun num_inputs :: "'a op \<Rightarrow> nat" where
  "num_inputs (OpValue i) = 0"
| "num_inputs (Op k f b) = k"

text \<open>\<open>op.assign(T)\<close>: \<open>self.X = T\<close> on an \<open>OpValue\<close>, no such attribute on another operation.\<close>

fun assign :: "'a op \<Rightarrow> 'a tensor \<Rightarrow> 'a assigned \<Rightarrow> error + 'a assigned" where
  "assign (OpValue i) T X = Inr (X(i := Some T))"
| "assign (Op k f b) T X = Inl AttributeError"

text \<open>\<open>op.forward(*args)\<close>: \<open>OpValue.forward\<close> takes no argument and returns \<open>self.X\<close>.\<close>

fun forward_op :: "'a assigned \<Rightarrow> 'a op \<Rightarrow> 'a tensor list \<Rightarrow> error + 'a tensor" where
  "forward_op X (OpValue i) args =
     (if args \<noteq> [] then Inl TypeError
      else case X i of None \<Rightarrow> Inl AttributeError | Some T \<Rightarrow> Inr T)"
| "forward_op X (Op k f b) args = f args"

fun backward_op :: "'a op \<Rightarrow> 'a tensor \<Rightarrow> 'a tensor list \<Rightarrow> error + 'a tensor list" where
  "backward_op (OpValue i) g args = Inl AttributeError"
| "backward_op (Op k f b) g args = b g args"

fun OpSum_forward :: "('a::plus) tensor list \<Rightarrow> error + 'a tensor" where
  "OpSum_forward [A, B] = tadd A B"
| "OpSum_forward _ = Inl TypeError"

fun OpSum_backward :: "'a tensor \<Rightarrow> 'a tensor list \<Rightarrow> error + 'a tensor list" where
  "OpSum_backward grad [A, B] = Inr [grad, grad]"
| "OpSum_backward grad _ = Inl TypeError"

definition OpSum :: "('a::plus) op" where
  "OpSum = Op 2 OpSum_forward OpSum_backward"

section \<open>Nodes and the graph (graph.py)\<close>

text \<open>
  A parent reference handed to \<open>Graph.add\<close> is a string or a node object.  Node objects
  have identity: they live in a heap (a list, a node's address is its index) and
  \<open>PNode r\<close> is the reference to address \<open>r\<close>.  \<open>==\<close>, \<open>in\<close>, \<open>list.index\<close> and
  \<open>list.remove\<close> on nodes compare addresses, as \<open>Node\<close> defines no \<open>__eq__\<close>.
\<close>

datatype pyval = PStr string | PNode nat

fun is_str :: "pyval \<Rightarrow> bool" where
  "is_str (PStr s) = True"
| "is_str (PNode r) = False"

record 'a node =
  name :: string
  op :: "'a op"
  parents :: "pyval list"
  children :: "nat list"

text \<open>\<open>Node.__init__\<close>\<close>

definition Node :: "string \<Rightarrow> 'a op \<Rightarrow> pyval list option \<Rightarrow> 'a node" where
  "Node nm opr ps =
     \<lparr>name = nm, op = opr,
      parents = (case ps of None \<Rightarrow> [] | Some xs \<Rightarrow> xs),
      children = []\<rparr>"

text \<open>
  The state: the heap of node objects (every node object there is, of this graph or not),
  the attribute \<open>X\<close> of the \<open>OpValue\<close> instances, and the attributes of the one \<open>Graph\<close>
  object.  The dictionary \<open>nodes\<close> keeps insertion order, so it is an association list
  with distinct keys; \<open>parameter_nodes\<close> and \<open>output_table\<close> are \<open>None\<close> until set.
\<close>

record 'a state =
  heap :: "'a node list"
  attr_X :: "'a assigned"
  nodes :: "(string \<times> nat) list"
  parameter_nodes :: "nat list option"
  output_table :: "(string \<times> 'a tensor) list option"

text \<open>\<open>Graph.__init__\<close>, in a program that has made no node and assigned no value yet.\<close>

definition Graph :: "'a state" where
  "Graph = \<lparr>heap = [], attr_X = (\<lambda>i. None), nodes = [], parameter_nodes = None,
            output_table = None\<rparr>"

text \<open>\<open>d[k] = v\<close> on an insertion-ordered dictionary.\<close>

fun dict_set :: "'k \<Rightarrow> 'v \<Rightarrow> ('k \<times> 'v) list \<Rightarrow> ('k \<times> 'v) list" where
  "dict_set k v [] = [(k, v)]"
| "dict_set k v ((k', v') # d) =
     (if k = k' then (k, v) # d else (k', v') # dict_set k v d)"

text \<open>\<open>d[k]\<close>, raising \<open>KeyError\<close>.\<close>

definition dict_get :: "('k \<times> 'v) list \<Rightarrow> 'k \<Rightarrow> error + 'v" where
  "dict_get d k = (case map_of d k of None \<Rightarrow> Inl KeyError | Some v \<Rightarrow> Inr v)"

text \<open>
  \<open>[self.nodes[n] for n in inputs]\<close>: every element is used as a key of the dictionary.
  A node object is hashable but equal to no string key, so it raises \<open>KeyError\<close> too.
\<close>

fun resolve :: "(string \<times> nat) list \<Rightarrow> pyval list \<Rightarrow> error + pyval list" where
  "resolve d [] = Inr []"
| "resolve d (PStr s # xs) =
     (case map_of d s of
        None \<Rightarrow> Inl KeyError
      | Some r \<Rightarrow> (case resolve d xs of Inl e \<Rightarrow> Inl e | Inr rs \<Rightarrow> Inr (PNode r # rs)))"
| "resolve d (PNode r # xs) = Inl KeyError"

text \<open>The last three lines of \<open>Graph.add\<close>: allocate the node, store it under its name.\<close>

definition register :: "'a op \<Rightarrow> string \<Rightarrow> pyval list option \<Rightarrow> 'a state \<Rightarrow> nat \<times> 'a state" where
  "register opr nm input_nodes s =
     (length (heap s),
      s\<lparr>heap := heap s @ [Node nm opr input_nodes],
        nodes := dict_set nm (length (heap s)) (nodes s)\<rparr>)"

definition add :: "'a op \<Rightarrow> string \<Rightarrow> pyval list option \<Rightarrow> 'a state \<Rightarrow> error + (nat \<times> 'a state)" where
  "add opr nm inputs s =
     (if nm \<in> fst ` set (nodes s) then Inl DuplicateNode
      else if \<not> ((inputs = None \<and> num_inputs opr = 0) \<or>
                  (inputs \<noteq> None \<and> num_inputs opr = length (the inputs)))
      then Inl ArityMismatch
      else (case inputs of
              None \<Rightarrow> Inr (register opr nm None s)
            | Some xs \<Rightarrow>
                (if length xs > 0 \<and> is_str (hd xs)
                 then (case resolve (nodes s) xs of
                         Inl e \<Rightarrow> Inl e
                       | Inr rs \<Rightarrow> Inr (register opr nm (Some rs) s))
                 else Inr (register opr nm (Some xs) s))))"

text \<open>The graph after \<open>g.add(OpValue(), 'A')\<close> and \<open>g.add(OpValue(), 'B')\<close>, used as
  a concrete input below.\<close>

definition two_values :: "int state" where
  "two_values =
     \<lparr>heap = [Node ''A'' (OpValue 0) None, Node ''B'' (OpValue 1) None],
      attr_X = (\<lambda>i. None),
      nodes = [(''A'', 0), (''B'', 1)], parameter_nodes = None, output_table = None\<rparr>"

section \<open>Flattening (grad\_check.py)\<close>

text \<open>\<open>np.ndarray.flatten\<close>: the elements in row-major order, as a 1-D array.\<close>

definition flatten :: "'a tensor \<Rightarrow> 'a tensor" where
  "flatten T = \<lparr>shape = [length (data T)], data = data T\<rparr>"

text \<open>\<open>np.concatenate\<close> of 1-D arrays; numpy raises \<open>ValueError\<close> ("need at least one
  array to concatenate") on an empty sequence.\<close>

definition concatenate :: "'a tensor list \<Rightarrow> error + 'a tensor" where
  "concatenate ts =
     (if ts = [] then Inl ValueError
      else Inr \<lparr>shape = [length (concat (map data ts))], data = concat (map data ts)\<rparr>)"

definition arrays_nd_array_1d :: "'a tensor list \<Rightarrow> error + 'a tensor" where
  "arrays_nd_array_1d arrays = concatenate (map flatten arrays)"

text \<open>
  \<open>array[i:j]\<close> with \<open>0 \<le> i \<le> j\<close>: the slice along the first axis, clipped to the array
  (no error out of range); \<open>IndexError\<close> on a 0-d array.
\<close>

fun slice :: "'a tensor \<Rightarrow> nat \<Rightarrow> nat \<Rightarrow> error + 'a tensor" where
  "slice T i j =
     (case shape T of
        [] \<Rightarrow> Inl IndexError
      | d # ds \<Rightarrow>
          Inr \<lparr>shape = (min j d - min i d) # ds,
               data = take ((min j d - min i d) * size_from_shape ds)
                        (drop (min i d * size_from_shape ds) (data T))\<rparr>)"

text \<open>\<open>a.reshape(shape)\<close>: \<open>ValueError\<close> when the sizes differ.\<close>

definition reshape :: "'a tensor \<Rightarrow> nat list \<Rightarrow> error + 'a tensor" where
  "reshape T s =
     (if size_from_shape s = length (data T) then Inr \<lparr>shape = s, data = data T\<rparr>
      else Inl ValueError)"

text \<open>The loop of \<open>array_1d_arrays_nd\<close>, with its variables \<open>index\<close> and \<open>arrays_nd\<close>.\<close>

fun array_1d_arrays_nd_loop ::
  "'a tensor \<Rightarrow> nat \<Rightarrow> 'a tensor list \<Rightarrow> nat list list \<Rightarrow> error + 'a tensor list" where
  "array_1d_arrays_nd_loop array index arrays_nd [] = Inr arrays_nd"
| "array_1d_arrays_nd_loop array index arrays_nd (s # shapes) =
     (let size = size_from_shape s in
      case slice array index (index + size) of
        Inl e \<Rightarrow> Inl e
      | Inr flat_array \<Rightarrow>
          (case reshape flat_array s of
             Inl e \<Rightarrow> Inl e
           | Inr T \<Rightarrow> array_1d_arrays_nd_loop array (index + size) (arrays_nd @ [T]) shapes))"

definition array_1d_arrays_nd :: "'a tensor \<Rightarrow> nat list list \<Rightarrow> error + 'a tensor list" where
  "array_1d_arrays_nd array shapes = array_1d_arrays_nd_loop array 0 [] shapes"

text \<open>A tensor is well formed when it has as many elements as its shape says, as every
  numpy array has.\<close>

definition wf_tensor :: "'a tensor \<Rightarrow> bool" where
  "wf_tensor T = (length (data T) = size_from_shape (shape T))"

section \<open>Gradient check (grad\_check.py)\<close>

text \<open>
  \<open>gradient_check\<close> works on 1-D arrays (as \<open>gradient_check_graph\<close> passes them) and
  mutates arrays in place, so arrays live in a store: a list of element lists, an array
  object is its index.  The floating-point operations \<open>+\<close>, \<open>-\<close>, \<open>*\<close>, \<open>/\<close> and \<open>0\<close> are
  the syntactic operations of the abstract element type, with no law assumed; the literal
  \<open>2.\<close> and \<open>np.linalg.norm\<close> are the two fields of \<open>numerics\<close>.  \<open>forward_func\<close> is a
  function of the contents of the array it is given, and may raise.
\<close>

type_synonym 'a store = "'a list list"

record 'a numerics =
  two :: 'a
  norm :: "'a list \<Rightarrow> 'a"

text \<open>A new array object (\<open>np.zeros\<close>, \<open>parameters.copy()\<close>).\<close>

definition alloc :: "'a list \<Rightarrow> 'a store \<Rightarrow> nat \<times> 'a store" where
  "alloc xs st = (length st, st @ [xs])"

text \<open>
  The body of the \<open>for i in range(fd_grad.shape[0])\<close> loop, over the indices still to
  visit.  The result is the exception raised by \<open>forward_func\<close>, if any, and the store.
  Every \<open>i\<close> visited is below the common length of the three arrays.
\<close>

fun gradient_check_loop ::
  "('a::{minus,plus,times,inverse}) numerics \<Rightarrow> ('a list \<Rightarrow> error + 'a) \<Rightarrow> 'a \<Rightarrow> nat \<Rightarrow> nat \<Rightarrow>
     nat list \<Rightarrow> 'a store \<Rightarrow> error option \<times> 'a store" where
  "gradient_check_loop np forward_func perturbation parameters fd_grad [] st = (None, st)"
| "gradient_check_loop np forward_func perturbation parameters fd_grad (i # is) st =
     (let (parameter_min, st1) = alloc (st ! parameters) st;
          (parameter_max, st2) = alloc (st1 ! parameters) st1;
          st3 = st2[parameter_min := (st2 ! parameter_min)[i := st2 ! parameter_min ! i - perturbation]];
          st4 = st3[parameter_max := (st3 ! parameter_max)[i := st3 ! parameter_max ! i + perturbation]]
      in case forward_func (st4 ! parameter_max) of
           Inl e \<Rightarrow> (Some e, st4)
         | Inr a \<Rightarrow>
            (case forward_func (st4 ! parameter_min) of
               Inl e \<Rightarrow> (Some e, st4)
             | Inr b \<Rightarrow>
                 gradient_check_loop np forward_func perturbation parameters fd_grad is
                   (st4[fd_grad := (st4 ! fd_grad)[i := (a - b) / (two np * perturbation)]])))"

definition gradient_check ::
  "('a::{zero,minus,plus,times,inverse}) numerics \<Rightarrow> nat \<Rightarrow> nat \<Rightarrow> ('a list \<Rightarrow> error + 'a) \<Rightarrow> 'a \<Rightarrow> 'a \<Rightarrow>
     'a store \<Rightarrow> (error + 'a) \<times> 'a store" where
  "gradient_check np parameters grad forward_func perturbation equality_threshold st =
     (if length (st ! parameters) \<noteq> length (st ! grad) then (Inl AssertionError, st)
      else
        let (fd_grad, st1) = alloc (replicate (length (st ! grad)) 0) st in
        case gradient_check_loop np forward_func perturbation parameters fd_grad
               [0..<length (st1 ! fd_grad)] st1 of
          (Some e, st2) \<Rightarrow> (Inl e, st2)
        | (None, st2) \<Rightarrow>
            (let numerator = norm np (map2 (-) (st2 ! fd_grad) (st2 ! grad));
                 denominator = norm np (st2 ! fd_grad) + norm np (st2 ! grad);
                 difference = numerator / denominator
             in (Inr difference, st2)))"

text \<open>The numerics on the reals, with the Euclidean norm, used as a concrete instance below.\<close>

definition l2 :: "real numerics" where
  "l2 = \<lparr>two = 2, norm = (\<lambda>xs. sqrt (sum_list (map (\<lambda>x. x * x) xs)))\<rparr>"

section \<open>Children and topological order (graph.py)\<close>

text \<open>
  \<open>for p in node.parents: p.children.append(node)\<close>.  A parent that is a string has no
  attribute \<open>children\<close>.
\<close>

fun append_child :: "'a node list \<Rightarrow> nat \<Rightarrow> pyval list \<Rightarrow> error + 'a node list" where
  "append_child h n [] = Inr h"
| "append_child h n (PStr s # ps) = Inl AttributeError"
| "append_child h n (PNode p # ps) =
     append_child (h[p := (h ! p)\<lparr>children := children (h ! p) @ [n]\<rparr>]) n ps"

fun update_children :: "'a node list \<Rightarrow> nat list \<Rightarrow> error + 'a node list" where
  "update_children h [] = Inr h"
| "update_children h (n # ns) =
     (case append_child h n (parents (h ! n)) of
        Inl e \<Rightarrow> Inl e
      | Inr h' \<Rightarrow> update_children h' ns)"

text \<open>
  The entries that node \<open>n\<close> with parent list \<open>ps\<close> adds to the children of node \<open>p\<close>:
  one per position of \<open>ps\<close> that holds \<open>p\<close>.
\<close>

definition slots :: "nat \<Rightarrow> nat \<Rightarrow> pyval list \<Rightarrow> nat list" where
  "slots p n ps = map (\<lambda>x. n) (filter (\<lambda>x. x = PNode p) ps)"

text \<open>
  The test of the inner loop of \<open>topological_sort\<close>: no child of \<open>n\<close> is in
  \<open>unsorted_internal_nodes\<close>.
\<close>

definition is_sink :: "'a node list \<Rightarrow> nat list \<Rightarrow> nat \<Rightarrow> bool" where
  "is_sink h unsorted n = list_all (\<lambda>c. c \<notin> set unsorted) (children (h ! n))"

text \<open>
  \<open>for n in unsorted_internal_nodes: ... unsorted_internal_nodes.remove(n)\<close>.  The list
  is changed while it is iterated: Python's list iterator keeps an index \<open>i\<close>, yields
  element \<open>i\<close> of the list as it is then, and stops when \<open>i\<close> reaches the current length.
  So the element that follows a removed one is skipped in this pass.
\<close>

function sweep :: "'a node list \<Rightarrow> nat \<Rightarrow> nat list \<Rightarrow> nat list \<Rightarrow> nat list \<times> nat list" where
  "sweep h i unsorted internal =
     (if i < length unsorted then
        (let n = unsorted ! i in
         if is_sink h unsorted n
         then sweep h (i + 1) (remove1 n unsorted) (internal @ [n])
         else sweep h (i + 1) unsorted internal)
      else (unsorted, internal))"
  by pat_completeness auto
termination
proof (relation "measure (\<lambda>(h, i, unsorted, internal). length unsorted - i)")
  show "wf (measure (\<lambda>(h, i, unsorted, internal). length unsorted - i))"
    by simp
next
  fix h :: "'a node list" and i :: nat and unsorted internal :: "nat list" and n
  assume "i < length unsorted" and "n = unsorted ! i"
  then have "length (remove1 n unsorted) = length unsorted - 1"
    by (simp add: length_remove1)
  then show "((h, i + 1, remove1 n unsorted, internal @ [n]), (h, i, unsorted, internal))
       \<in> measure (\<lambda>(h, i, unsorted, internal). length unsorted - i)"
    using \<open>i < length unsorted\<close> by simp
next
  fix h :: "'a node list" and i :: nat and unsorted internal :: "nat list" and n
  assume "i < length unsorted"
  then show "((h, i + 1, unsorted, internal), (h, i, unsorted, internal))
       \<in> measure (\<lambda>(h, i, unsorted, internal). length unsorted - i)"
    by simp
qed

declare sweep.simps [simp del]

text \<open>
  \<open>while len(unsorted_internal_nodes) > 0\<close>: the loop does not return when a pass removes
  nothing (a cycle among the children); not returning is the value \<open>None\<close>.
\<close>

partial_function (option) sort_loop :: "'a node list \<Rightarrow> nat list \<Rightarrow> nat list \<Rightarrow> nat list option" where
  "sort_loop h unsorted internal =
     (if length unsorted > 0
      then (let r = sweep h 0 unsorted internal in sort_loop h (fst r) (snd r))
      else Some internal)"

declare sort_loop.simps [code]

definition topological_sort ::
  "'a node list \<Rightarrow> nat list \<Rightarrow> (error + nat list \<times> nat list) option" where
  "topological_sort h ns =
     (let parameter_nodes = filter (\<lambda>n. length (parents (h ! n)) = 0) ns in
      if \<not> length parameter_nodes > 0 then Some (Inl NoInputNodes)
      else
        let unsorted_internal_nodes = filter (\<lambda>n. n \<notin> set parameter_nodes) ns in
        case sort_loop h unsorted_internal_nodes [] of
          None \<Rightarrow> None
        | Some internal_nodes \<Rightarrow> Some (Inr (parameter_nodes, rev internal_nodes)))"

text \<open>\<open>self.nodes.values()\<close>\<close>

definition values_of :: "('k \<times> 'v) list \<Rightarrow> 'v list" where
  "values_of d = map snd d"

text \<open>
  \<open>Graph.done\<close>.  The dictionary is rebuilt from the parameter nodes, then the internal
  nodes are stored one by one.  \<open>None\<close> when the sort does not return.
\<close>

definition done_graph :: "'a state \<Rightarrow> (error + 'a state) option" where
  "done_graph s =
     (case update_children (heap s) (values_of (nodes s)) of
        Inl e \<Rightarrow> Some (Inl e)
      | Inr h \<Rightarrow>
          (case topological_sort h (values_of (nodes s)) of
             None \<Rightarrow> None
           | Some (Inl e) \<Rightarrow> Some (Inl e)
           | Some (Inr (ps, internal_nodes)) \<Rightarrow>
               Some (Inr (s\<lparr>heap := h, parameter_nodes := Some ps,
                          nodes := fold (\<lambda>n d. dict_set (name (h ! n)) n d) internal_nodes
                                     (fold (\<lambda>n d. dict_set (name (h ! n)) n d) ps [])\<rparr>))))"

text \<open>
  The graphs that \<open>done\<close> is meant for: the names and the nodes of the dictionary are
  distinct, every node is stored under its own name, each of its parents is a node of the
  dictionary, and each of its children (there is none before \<open>done\<close>) is a node of the
  dictionary that has it among its parents.  Nothing is asked of the order of the
  dictionary.  \<open>Graph.add\<close> builds such graphs as long as the parents it is given are
  names, or nodes of the graph, and \<open>done\<close> keeps them so (lemmas \<open>add_wf_graph\<close> and
  \<open>done_wf_graph\<close> below); \<open>Graph.add\<close> checks nothing of the kind, and stores as a parent
  a node of no graph, or a string after a leading node, just as well.
\<close>

definition wf_graph :: "'a state \<Rightarrow> bool" where
  "wf_graph s =
     (let ids = values_of (nodes s) in
      distinct (map fst (nodes s)) \<and> distinct ids \<and>
      list_all (\<lambda>i.
          ids ! i < length (heap s) \<and>
          name (heap s ! (ids ! i)) = fst (nodes s ! i) \<and>
          list_all (\<lambda>c. c \<in> set ids \<and> PNode (ids ! i) \<in> set (parents (heap s ! c)))
            (children (heap s ! (ids ! i))) \<and>
          list_all (\<lambda>x. case x of PStr k \<Rightarrow> False | PNode p \<Rightarrow> p \<in> set ids)
            (parents (heap s ! (ids ! i))))
        [0..<length ids])"

text \<open>
  The graph has no cycle: the rank \<open>rk\<close> of a node is above the rank of each of its
  parents.  For a graph built by \<open>Graph.add\<close> the address of a node is such a rank, as the
  parents of a node are made before it.
\<close>

definition ranked :: "(nat \<Rightarrow> nat) \<Rightarrow> 'a state \<Rightarrow> bool" where
  "ranked rk s =
     list_all (\<lambda>n. list_all (\<lambda>x. case x of PStr k \<Rightarrow> True | PNode p \<Rightarrow> rk p < rk n)
                      (parents (heap s ! n)))
       (values_of (nodes s))"

text \<open>
  The invariant of the two loops of \<open>topological_sort\<close> over the internal nodes \<open>U\<close>: the
  nodes still unsorted and the nodes removed so far partition \<open>U\<close>, and every child of a
  removed node was removed before it.
\<close>

definition sort_inv :: "'a node list \<Rightarrow> nat list \<Rightarrow> nat list \<Rightarrow> nat list \<Rightarrow> bool" where
  "sort_inv h U unsorted internal =
     (distinct unsorted \<and> distinct internal \<and>
      set unsorted \<inter> set internal = {} \<and> set unsorted \<union> set internal = set U \<and>
      (\<forall>k<length internal. \<forall>c\<in>set (children (h ! (internal ! k))). c \<in> set (take k internal)))"

text \<open>
  A diamond, as a concrete input: after
  \<open>A = g.add(OpValue(), 'A')\<close>, \<open>X = g.add(OpValue(), 'X')\<close>, \<open>Y = g.add(OpValue(), 'Y')\<close>,
  \<open>B = g.add(OpSum(), 'B', [A, X])\<close>, \<open>C = g.add(OpSum(), 'C', ['A', 'Y'])\<close> and
  \<open>D = g.add(OpSum(), 'D', [B, C])\<close>.
\<close>

definition diamond :: "int state" where
  "diamond =
     \<lparr>heap = [Node ''A'' (OpValue 0) None, Node ''X'' (OpValue 1) None,
              Node ''Y'' (OpValue 2) None,
              Node ''B'' OpSum (Some [PNode 0, PNode 1]),
              Node ''C'' OpSum (Some [PNode 0, PNode 2]),
              Node ''D'' OpSum (Some [PNode 3, PNode 4])],
      attr_X = (\<lambda>i. None),
      nodes = [(''A'', 0), (''X'', 1), (''Y'', 2), (''B'', 3), (''C'', 4), (''D'', 5)],
      parameter_nodes = None, output_table = None\<rparr>"

text \<open>
  A graph whose dictionary is not in the order of the parents: \<open>B\<close>, stored before \<open>C\<close>,
  has \<open>C\<close> among its parents.  \<open>Graph.add\<close> keeps the list it is given as the list of
  parents, so this is the graph after \<open>A = g.add(OpValue(), 'A')\<close>, \<open>L = [A, A]\<close>,
  \<open>B = g.add(OpSum(), 'B', L)\<close>, \<open>C = g.add(OpSum(), 'C', [A, A])\<close> and \<open>L[1] = C\<close>.
\<close>

definition late :: "int state" where
  "late =
     \<lparr>heap = [Node ''A'' (OpValue 0) None,
              Node ''B'' OpSum (Some [PNode 0, PNode 2]),
              Node ''C'' OpSum (Some [PNode 0, PNode 0])],
      attr_X = (\<lambda>i. None),
      nodes = [(''A'', 0), (''B'', 1), (''C'', 2)],
      parameter_nodes = None, output_table = None\<rparr>"

text \<open>
  A graph with a parent that is not one of its nodes: after \<open>g.add(OpValue(), 'A')\<close>,
  \<open>x = Node('X', OpValue())\<close> and \<open>g.add(OpSum(), 'B', [x, x])\<close>.  The heap holds the three
  node objects, the dictionary of the graph the two that were added.
\<close>

definition with_stranger :: "int state" where
  "with_stranger =
     \<lparr>heap = [Node ''A'' (OpValue 0) None,
              Node ''X'' (OpValue 1) None,
              Node ''B'' OpSum (Some [PNode 1, PNode 1])],
      attr_X = (\<lambda>i. None),
      nodes = [(''A'', 0), (''B'', 2)],
      parameter_nodes = None, output_table = None\<rparr>"

text \<open>
  What \<open>done\<close> establishes on a graph whose parents are all nodes of the dictionary
  (\<open>wf_graph\<close>, lemma \<open>done_finalized\<close> below) and \<open>forward\<close> keeps: there is a node, \<open>parameter_nodes\<close> holds the nodes without parents, the names
  and the nodes of the dictionary are distinct, every node is stored under its own name,
  and each of its parents is a node stored earlier in the dictionary.  A graph that \<open>done\<close>
  has returned from with a parent outside the dictionary is not of this kind.
\<close>

definition finalized :: "'a state \<Rightarrow> bool" where
  "finalized s =
     (let ids = values_of (nodes s); h = heap s in
      nodes s \<noteq> [] \<and>
      parameter_nodes s = Some (filter (\<lambda>n. parents (h ! n) = []) ids) \<and>
      distinct (map fst (nodes s)) \<and> distinct ids \<and>
      list_all (\<lambda>i.
          ids ! i < length h \<and>
          name (h ! (ids ! i)) = fst (nodes s ! i) \<and>
          list_all (\<lambda>x. case x of PStr k \<Rightarrow> False | PNode p \<Rightarrow> p \<in> set (take i ids))
            (parents (h ! (ids ! i))))
        [0..<length ids])"

section \<open>Forward propagation (prop.py, graph.py)\<close>

text \<open>
  The first loop of \<open>prop\<close>: \<open>nodes[name].op.assign(tensor)\<close> for every entry of the
  parameter table, in its order.  The tensor goes to the operation instance that the node
  holds, whichever other nodes hold it too.
\<close>

fun assign_loop ::
  "'a node list \<Rightarrow> (string \<times> nat) list \<Rightarrow> (string \<times> 'a tensor) list \<Rightarrow> 'a assigned \<Rightarrow>
     error + 'a assigned" where
  "assign_loop h ns [] X = Inr X"
| "assign_loop h ns ((nm, T) # rest) X =
     (case dict_get ns nm of
        Inl e \<Rightarrow> Inl e
      | Inr r \<Rightarrow>
          (case assign (op (h ! r)) T X of
             Inl e \<Rightarrow> Inl e
           | Inr X' \<Rightarrow> assign_loop h ns rest X'))"

text \<open>\<open>[output_table[p.name] for p in node.inputs()]\<close>; a string has no attribute \<open>name\<close>.\<close>

fun gather ::
  "'a node list \<Rightarrow> (string \<times> 'a tensor) list \<Rightarrow> pyval list \<Rightarrow> error + 'a tensor list" where
  "gather h tbl [] = Inr []"
| "gather h tbl (PStr s # ps) = Inl AttributeError"
| "gather h tbl (PNode p # ps) =
     (case dict_get tbl (name (h ! p)) of
        Inl e \<Rightarrow> Inl e
      | Inr T \<Rightarrow> (case gather h tbl ps of Inl e \<Rightarrow> Inl e | Inr Ts \<Rightarrow> Inr (T # Ts)))"

text \<open>The second loop of \<open>prop\<close>, over \<open>nodes.items()\<close>.\<close>

fun prop_loop ::
  "'a assigned \<Rightarrow> 'a node list \<Rightarrow> (string \<times> nat) list \<Rightarrow> (string \<times> 'a tensor) list \<Rightarrow>
     error + (string \<times> 'a tensor) list" where
  "prop_loop X h [] tbl = Inr tbl"
| "prop_loop X h ((nm, r) # rest) tbl =
     (case gather h tbl (parents (h ! r)) of
        Inl e \<Rightarrow> Inl e
      | Inr args \<Rightarrow>
          (case forward_op X (op (h ! r)) args of
             Inl e \<Rightarrow> Inl e
           | Inr T \<Rightarrow> prop_loop X h rest (dict_set (name (h ! r)) T tbl)))"

text \<open>\<open>prop\<close> (named \<open>prop_nodes\<close> here) returns the output and the table; the assigned
  tensors are returned too.\<close>

definition prop_nodes ::
  "'a node list \<Rightarrow> (string \<times> nat) list \<Rightarrow> 'a assigned \<Rightarrow> (string \<times> 'a tensor) list \<Rightarrow>
     error + ('a tensor \<times> (string \<times> 'a tensor) list \<times> 'a assigned)" where
  "prop_nodes h ns X parameter_table =
     (case assign_loop h ns parameter_table X of
        Inl e \<Rightarrow> Inl e
      | Inr X' \<Rightarrow>
          (case prop_loop X' h ns [] of
             Inl e \<Rightarrow> Inl e
           | Inr tbl \<Rightarrow>
               (if ns = [] then Inl IndexError
                else case dict_get tbl (fst (last ns)) of
                       Inl e \<Rightarrow> Inl e
                     | Inr out \<Rightarrow> Inr (out, tbl, X'))))"

text \<open>\<open>Graph.forward\<close>; iterating \<open>parameter_nodes\<close> before \<open>done\<close> is a \<open>TypeError\<close>.  The
  state is given for a call that returns.\<close>

definition forward ::
  "'a state \<Rightarrow> (string \<times> 'a tensor) list \<Rightarrow>
     error + ('a tensor \<times> (string \<times> 'a tensor) list \<times> 'a state)" where
  "forward s parameter_table =
     (case parameter_nodes s of
        None \<Rightarrow> Inl TypeError
      | Some ps \<Rightarrow>
          if list_ex (\<lambda>i. name (heap s ! i) \<notin> fst ` set parameter_table) ps
          then Inl MissingParameter
          else (case prop_nodes (heap s) (nodes s) (attr_X s) parameter_table of
                  Inl e \<Rightarrow> Inl e
                | Inr (out, tbl, X') \<Rightarrow>
                    Inr (out, tbl, s\<lparr>attr_X := X', output_table := Some tbl\<rparr>)))"

section \<open>Backpropagation (prop.py, graph.py)\<close>

text \<open>\<open>list.index\<close>: the first position of an element, \<open>ValueError\<close> when it is absent.\<close>

fun index_of :: "'x \<Rightarrow> 'x list \<Rightarrow> error + nat" where
  "index_of x [] = Inl ValueError"
| "index_of x (y # ys) =
     (if y = x then Inr 0
      else case index_of x ys of Inl e \<Rightarrow> Inl e | Inr i \<Rightarrow> Inr (Suc i))"

text \<open>\<open>reduce((lambda x, y: x + y), xs)\<close>: \<open>TypeError\<close> on an empty list, else the sum
  from the left.\<close>

fun reduce_from :: "('a::plus) tensor \<Rightarrow> 'a tensor list \<Rightarrow> error + 'a tensor" where
  "reduce_from acc [] = Inr acc"
| "reduce_from acc (x # xs) =
     (case tadd acc x of Inl e \<Rightarrow> Inl e | Inr acc' \<Rightarrow> reduce_from acc' xs)"

fun reduce_add :: "('a::plus) tensor list \<Rightarrow> error + 'a tensor" where
  "reduce_add [] = Inl TypeError"
| "reduce_add (x # xs) = reduce_from x xs"

text \<open>
  \<open>build_grad\<close> (its argument \<open>output_table\<close> is \<open>out_table\<close> here) and its loop over \<open>node.consumers()\<close>.  The two tables are passed and
  returned.  \<open>build_grad\<close> calls itself inside the loop; the first argument bounds the
  depth of these calls, as Python's recursion limit does (\<open>RecursionError\<close>).
\<close>

fun build_grad ::
  "nat \<Rightarrow> ('a::plus) node list \<Rightarrow> (string \<times> 'a tensor) list \<Rightarrow> nat \<Rightarrow>
     (string \<times> 'a tensor list) list \<times> (string \<times> 'a tensor) list \<Rightarrow>
     error + ('a tensor \<times> (string \<times> 'a tensor list) list \<times> (string \<times> 'a tensor) list)"
and build_grad_loop ::
  "nat \<Rightarrow> 'a node list \<Rightarrow> (string \<times> 'a tensor) list \<Rightarrow> nat \<Rightarrow> nat list \<Rightarrow> 'a tensor list \<Rightarrow>
     (string \<times> 'a tensor list) list \<times> (string \<times> 'a tensor) list \<Rightarrow>
     error + ('a tensor list \<times> (string \<times> 'a tensor list) list \<times> (string \<times> 'a tensor) list)"
where
  "build_grad 0 h out_table node tabs = Inl RecursionError"
| "build_grad (Suc depth) h out_table node (parameter_grad_table, output_grad_table) =
     (case map_of output_grad_table (name (h ! node)) of
        Some g \<Rightarrow> Inr (g, parameter_grad_table, output_grad_table)
      | None \<Rightarrow>
          (case build_grad_loop depth h out_table node (children (h ! node)) []
                  (parameter_grad_table, output_grad_table) of
             Inl e \<Rightarrow> Inl e
           | Inr (consumer_gradients, pgt, ogt) \<Rightarrow>
               (case reduce_add consumer_gradients of
                  Inl e \<Rightarrow> Inl e
                | Inr consumer_gradients_sum \<Rightarrow>
                    Inr (consumer_gradients_sum, pgt,
                         dict_set (name (h ! node)) consumer_gradients_sum ogt))))"
| "build_grad_loop depth h out_table node [] consumer_gradients tabs =
     Inr (consumer_gradients, tabs)"
| "build_grad_loop depth h out_table node (consumer_node # rest) consumer_gradients
       (parameter_grad_table, output_grad_table) =
     (case index_of (PNode node) (parents (h ! consumer_node)) of
        Inl e \<Rightarrow> Inl e
      | Inr parameter_index \<Rightarrow>
          (case map_of parameter_grad_table (name (h ! consumer_node)) of
             Some grads \<Rightarrow>
               (if parameter_index < length grads
                then build_grad_loop depth h out_table node rest
                       (consumer_gradients @ [grads ! parameter_index])
                       (parameter_grad_table, output_grad_table)
                else Inl IndexError)
           | None \<Rightarrow>
               (case gather h out_table (parents (h ! consumer_node)) of
                  Inl e \<Rightarrow> Inl e
                | Inr consumer_parameter_activations \<Rightarrow>
                    (case build_grad depth h out_table consumer_node
                            (parameter_grad_table, output_grad_table) of
                       Inl e \<Rightarrow> Inl e
                     | Inr (consumer_output_gradient, pgt, ogt) \<Rightarrow>
                         (case backward_op (op (h ! consumer_node)) consumer_output_gradient
                                 consumer_parameter_activations of
                            Inl e \<Rightarrow> Inl e
                          | Inr consumer_parameter_gradients \<Rightarrow>
                              (if \<not> length consumer_parameter_gradients > parameter_index
                               then Inl AssertionError
                               else build_grad_loop depth h out_table node rest
                                      (consumer_gradients @ [consumer_parameter_gradients ! parameter_index])
                                      (dict_set (name (h ! consumer_node)) consumer_parameter_gradients pgt,
                                       ogt)))))))"

text \<open>\<open>output_grad_table[n.name] = np.ones(output_table[n.name].shape)\<close> for the sinks.\<close>

fun seed_sinks ::
  "'a node list \<Rightarrow> (string \<times> 'a tensor) list \<Rightarrow> nat list \<Rightarrow> (string \<times> ('a::one) tensor) list \<Rightarrow>
     error + (string \<times> 'a tensor) list" where
  "seed_sinks h out_table [] ogt = Inr ogt"
| "seed_sinks h out_table (n # ns) ogt =
     (case dict_get out_table (name (h ! n)) of
        Inl e \<Rightarrow> Inl e
      | Inr T \<Rightarrow> seed_sinks h out_table ns (dict_set (name (h ! n)) (ones (shape T)) ogt))"

text \<open>\<open>for node in nodes: build_grad(node, ...)\<close>\<close>

fun backprop_loop ::
  "nat \<Rightarrow> ('a::plus) node list \<Rightarrow> (string \<times> 'a tensor) list \<Rightarrow> nat list \<Rightarrow>
     (string \<times> 'a tensor list) list \<times> (string \<times> 'a tensor) list \<Rightarrow>
     error + ((string \<times> 'a tensor list) list \<times> (string \<times> 'a tensor) list)" where
  "backprop_loop depth h out_table [] tabs = Inr tabs"
| "backprop_loop depth h out_table (n # ns) tabs =
     (case build_grad depth h out_table n tabs of
        Inl e \<Rightarrow> Inl e
      | Inr (g, pgt, ogt) \<Rightarrow> backprop_loop depth h out_table ns (pgt, ogt))"

definition backprop ::
  "nat \<Rightarrow> ('a::{plus,one}) node list \<Rightarrow> nat list \<Rightarrow> (string \<times> 'a tensor) list \<Rightarrow>
     error + (string \<times> 'a tensor) list" where
  "backprop depth h ns out_table =
     (let sinks = filter (\<lambda>n. length (children (h ! n)) = 0) ns in
      case seed_sinks h out_table sinks [] of
        Inl e \<Rightarrow> Inl e
      | Inr ogt0 \<Rightarrow>
          (case backprop_loop depth h out_table ns ([], ogt0) of
             Inl e \<Rightarrow> Inl e
           | Inr (parameter_grad_table, output_grad_table) \<Rightarrow> Inr output_grad_table))"

text \<open>\<open>Graph.backward\<close>, with the recursion limit.\<close>

definition backward :: "nat \<Rightarrow> ('a::{plus,one}) state \<Rightarrow> error + (string \<times> 'a tensor) list" where
  "backward depth s =
     (case output_table s of
        None \<Rightarrow> Inl NoForwardPass
      | Some tbl \<Rightarrow> backprop depth (heap s) (values_of (nodes s)) tbl)"

text \<open>
  The diamond after \<open>g.done()\<close>, and a parameter table for it, as concrete inputs.
\<close>

definition diamond_done :: "int state" where
  "diamond_done =
     \<lparr>heap = [\<lparr>name = ''A'', op = OpValue 0, parents = [], children = [3, 4]\<rparr>,
              \<lparr>name = ''X'', op = OpValue 1, parents = [], children = [3]\<rparr>,
              \<lparr>name = ''Y'', op = OpValue 2, parents = [], children = [4]\<rparr>,
              \<lparr>name = ''B'', op = OpSum, parents = [PNode 0, PNode 1], children = [5]\<rparr>,
              \<lparr>name = ''C'', op = OpSum, parents = [PNode 0, PNode 2], children = [5]\<rparr>,
              \<lparr>name = ''D'', op = OpSum, parents = [PNode 3, PNode 4], children = []\<rparr>],
      attr_X = (\<lambda>i. None),
      nodes = [(''A'', 0), (''X'', 1), (''Y'', 2), (''C'', 4), (''B'', 3), (''D'', 5)],
      parameter_nodes = Some [0, 1, 2], output_table = None\<rparr>"





section \<open>Properties of \<open>Graph.add\<close>\<close>

lemma dict_set_fresh: "k \<notin> fst ` set d \<Longrightarrow> dict_set k v d = d @ [(k, v)]"
  by (induction d) auto

lemma resolve_all_str:
  "\<forall>y\<in>set xs. \<exists>k r. y = PStr k \<and> map_of d k = Some r \<Longrightarrow>
   resolve d xs = Inr (map (\<lambda>y. case y of PStr k \<Rightarrow> PNode (the (map_of d k)) | PNode r \<Rightarrow> PNode r) xs)"
  by (induction xs) auto

lemma resolve_length: "resolve d xs = Inr rs \<Longrightarrow> length rs = length xs"
  by (induction d xs arbitrary: rs rule: resolve.induct) (auto split: option.splits sum.splits)

lemma resolve_fail:
  "\<exists>y\<in>set xs. (\<forall>k. y = PStr k \<longrightarrow> map_of d k = None) \<Longrightarrow> resolve d xs = Inl KeyError"
proof (induction xs)
  case Nil then show ?case by simp
next
  case (Cons x xs)
  show ?case
  proof (cases x)
    case (PStr k)
    show ?thesis
    proof (cases "map_of d k")
      case None then show ?thesis using PStr by simp
    next
      case (Some r)
      with Cons PStr have "resolve d xs = Inl KeyError" by auto
      then show ?thesis using PStr Some by simp
    qed
  next
    case (PNode r) then show ?thesis by simp
  qed
qed

text \<open>
  Claim C7, as the code has it.  \<open>Graph.add\<close> fails with \<open>DuplicateNode\<close> when the name is
  already a key of \<open>nodes\<close>; otherwise it fails with \<open>ArityMismatch\<close> when the number of
  supplied parents (none supplied counts as zero, and so does an explicit empty sequence)
  differs from \<open>num_inputs\<close> of the operation; otherwise, when the parents are given by
  name (the first element of a non-empty sequence is a string), it fails with \<open>KeyError\<close>
  when some element is not the name of a node already added (a node object, or a name
  that is no key of \<open>nodes\<close>); in all remaining cases it succeeds: it returns the new node,
  appended to the heap and stored under its name at the end of \<open>nodes\<close>, with the
  operation, no children and \<open>num_inputs\<close> parents.
\<close>

theorem add_outcomes:
  "(nm \<in> fst ` set (nodes s) \<longrightarrow> add opr nm inputs s = Inl DuplicateNode) \<and>
   (nm \<notin> fst ` set (nodes s) \<and>
    num_inputs opr \<noteq> (case inputs of None \<Rightarrow> 0 | Some xs \<Rightarrow> length xs) \<longrightarrow>
      add opr nm inputs s = Inl ArityMismatch) \<and>
   (nm \<notin> fst ` set (nodes s) \<and>
    num_inputs opr = (case inputs of None \<Rightarrow> 0 | Some xs \<Rightarrow> length xs) \<and>
    (\<exists>x xs. inputs = Some (x # xs) \<and> is_str x \<and>
       (\<exists>y\<in>set (x # xs). \<forall>k. y = PStr k \<longrightarrow> k \<notin> fst ` set (nodes s))) \<longrightarrow>
      add opr nm inputs s = Inl KeyError) \<and>
   (nm \<notin> fst ` set (nodes s) \<and>
    num_inputs opr = (case inputs of None \<Rightarrow> 0 | Some xs \<Rightarrow> length xs) \<and>
    (\<forall>x xs. inputs = Some (x # xs) \<and> is_str x \<longrightarrow>
       (\<forall>y\<in>set (x # xs). \<exists>k. y = PStr k \<and> k \<in> fst ` set (nodes s))) \<longrightarrow>
      (\<exists>n s'. add opr nm inputs s = Inr (length (heap s), s') \<and>
          heap s' = heap s @ [n] \<and> nodes s' = nodes s @ [(nm, length (heap s))] \<and>
          name n = nm \<and> op n = opr \<and> children n = [] \<and>
          length (parents n) = num_inputs opr))"
proof (intro conjI impI; (elim conjE)?)
  show "nm \<in> fst ` set (nodes s) \<Longrightarrow> add opr nm inputs s = Inl DuplicateNode"
    by (simp add: add_def)
next
  assume "nm \<notin> fst ` set (nodes s)"
    and "num_inputs opr \<noteq> (case inputs of None \<Rightarrow> 0 | Some xs \<Rightarrow> length xs)"
  then show "add opr nm inputs s = Inl ArityMismatch"
    by (cases inputs) (auto simp: add_def)
next
  assume fresh: "nm \<notin> fst ` set (nodes s)"
    and ar: "num_inputs opr = (case inputs of None \<Rightarrow> 0 | Some xs \<Rightarrow> length xs)"
    and bad: "\<exists>x xs. inputs = Some (x # xs) \<and> is_str x \<and>
       (\<exists>y\<in>set (x # xs). \<forall>k. y = PStr k \<longrightarrow> k \<notin> fst ` set (nodes s))"
  then obtain x xs where i: "inputs = Some (x # xs)" and x: "is_str x"
    and y: "\<exists>y\<in>set (x # xs). \<forall>k. y = PStr k \<longrightarrow> k \<notin> fst ` set (nodes s)" by blast
  from y have "\<exists>y\<in>set (x # xs). \<forall>k. y = PStr k \<longrightarrow> map_of (nodes s) k = None"
    by (simp only: map_of_eq_None_iff)
  then have "resolve (nodes s) (x # xs) = Inl KeyError" by (rule resolve_fail)
  with fresh ar i x show "add opr nm inputs s = Inl KeyError"
    by (simp add: add_def)
next
  assume fresh: "nm \<notin> fst ` set (nodes s)"
    and ar: "num_inputs opr = (case inputs of None \<Rightarrow> 0 | Some xs \<Rightarrow> length xs)"
    and res: "\<forall>x xs. inputs = Some (x # xs) \<and> is_str x \<longrightarrow>
       (\<forall>y\<in>set (x # xs). \<exists>k. y = PStr k \<and> k \<in> fst ` set (nodes s))"
  let ?goal = "\<exists>n s'. add opr nm inputs s = Inr (length (heap s), s') \<and>
          heap s' = heap s @ [n] \<and> nodes s' = nodes s @ [(nm, length (heap s))] \<and>
          name n = nm \<and> op n = opr \<and> children n = [] \<and>
          length (parents n) = num_inputs opr"
  show ?goal
  proof (cases inputs)
    case None
    with fresh ar show ?thesis
      by (simp add: add_def register_def Node_def dict_set_fresh)
  next
    case (Some ys)
    show ?thesis
    proof (cases "0 < length ys \<and> is_str (hd ys)")
      case False
      with fresh ar Some show ?thesis
        by (auto simp: add_def register_def Node_def dict_set_fresh)
    next
      case True
      then obtain x xs where ys: "ys = x # xs" and "is_str x" by (cases ys) auto
      with res Some have "\<forall>y\<in>set ys. \<exists>k. y = PStr k \<and> k \<in> fst ` set (nodes s)" by blast
      then have "\<forall>y\<in>set ys. \<exists>k r. y = PStr k \<and> map_of (nodes s) k = Some r"
        by (metis weak_map_of_SomeI not_None_eq map_of_eq_None_iff)
      from resolve_all_str[OF this] obtain rs where rs: "resolve (nodes s) ys = Inr rs" 
        and "length rs = length ys" by simp
      with fresh ar Some True show ?thesis
        by (auto simp: add_def register_def Node_def dict_set_fresh)
    qed
  qed
qed

theorem add_outcomes_witness:
  "add OpSum ''A'' (Some [PStr ''A'', PStr ''B'']) two_values = Inl DuplicateNode \<and>
   add OpSum ''S'' (Some [PStr ''A'']) two_values = Inl ArityMismatch \<and>
   add OpSum ''S'' None two_values = Inl ArityMismatch \<and>
   (\<exists>n s'. add OpSum ''S'' (Some [PStr ''A'', PStr ''B'']) two_values = Inr (2, s') \<and>
      heap s' = heap two_values @ [n] \<and> nodes s' = nodes two_values @ [(''S'', 2)] \<and>
      name n = ''S'' \<and> children n = [] \<and> length (parents n) = 2) \<and>
   (\<exists>n s'. add (OpValue 2) ''C'' (Some []) two_values = Inr (2, s') \<and>
      heap s' = heap two_values @ [n] \<and> length (parents n) = 0) \<and>
   add OpSum ''S'' (Some [PStr ''A'', PStr ''Z'']) two_values = Inl KeyError \<and>
   add OpSum ''S'' (Some [PStr ''A'', PNode 1]) two_values = Inl KeyError"
  using add_outcomes [of "''A''" two_values OpSum "Some [PStr ''A'', PStr ''B'']"]
    add_outcomes [of "''S''" two_values OpSum "Some [PStr ''A'']"]
    add_outcomes [of "''S''" two_values OpSum "None"]
    add_outcomes [of "''S''" two_values OpSum "Some [PStr ''A'', PStr ''B'']"]
    add_outcomes [of "''C''" two_values "OpValue 2" "Some []"]
    add_outcomes [of "''S''" two_values OpSum "Some [PStr ''A'', PStr ''Z'']"]
    add_outcomes [of "''S''" two_values OpSum "Some [PStr ''A'', PNode 1]"]
  by (auto simp: two_values_def OpSum_def numeral_2_eq_2)

text \<open>
  Claim C7 as stated ("in all other cases add succeeds") fails: with a fresh name and the right
  number of parents, a parent name that was never added makes \<open>self.nodes[n]\<close> raise
  \<open>KeyError\<close>, and nothing is registered.
\<close>

theorem add_unknown_parent_name_counterexample:
  "''S'' \<notin> fst ` set (nodes (Graph :: int state)) \<and>
   num_inputs (OpSum :: int op) = length [PStr ''A'', PStr ''B''] \<and>
   add (OpSum :: int op) ''S'' (Some [PStr ''A'', PStr ''B'']) Graph = Inl KeyError"
  by (simp add: add_def Graph_def OpSum_def)

text \<open>
  Claim C9.  When a non-empty parent sequence is supplied (to a fresh name, with the right
  arity), the first element alone decides how all of it is read.  If it is a string, every
  element is looked up by name: the call succeeds, with the looked-up nodes as parents,
  when all elements are names of added nodes, and raises \<open>KeyError\<close> as soon as one element
  is a node object or an unknown name.  If it is not a string, the sequence becomes the
  parent list as it is, strings in later positions included.
\<close>

theorem add_mode_by_first_element:
  "nm \<notin> fst ` set (nodes s) \<and> num_inputs opr = length (x # xs) \<longrightarrow>
     (is_str x \<and> (\<forall>y\<in>set (x # xs). \<exists>k r. y = PStr k \<and> map_of (nodes s) k = Some r) \<longrightarrow>
        (\<exists>r s'. add opr nm (Some (x # xs)) s = Inr (r, s') \<and>
           parents (heap s' ! r) =
             map (\<lambda>y. case y of PStr k \<Rightarrow> PNode (the (map_of (nodes s) k)) | PNode q \<Rightarrow> PNode q) (x # xs))) \<and>
     (is_str x \<and> (\<exists>y\<in>set (x # xs). \<forall>k. y = PStr k \<longrightarrow> map_of (nodes s) k = None) \<longrightarrow>
        add opr nm (Some (x # xs)) s = Inl KeyError) \<and>
     (\<not> is_str x \<longrightarrow>
        (\<exists>r s'. add opr nm (Some (x # xs)) s = Inr (r, s') \<and> parents (heap s' ! r) = x # xs))"
proof (intro impI conjI; elim conjE)
  assume a: "nm \<notin> fst ` set (nodes s)" "num_inputs opr = length (x # xs)"
  { assume "is_str x" and h: "\<forall>y\<in>set (x # xs). \<exists>k r. y = PStr k \<and> map_of (nodes s) k = Some r"
    from resolve_all_str[OF h] \<open>is_str x\<close> a
    show "\<exists>r s'. add opr nm (Some (x # xs)) s = Inr (r, s') \<and>
           parents (heap s' ! r) =
             map (\<lambda>y. case y of PStr k \<Rightarrow> PNode (the (map_of (nodes s) k)) | PNode q \<Rightarrow> PNode q) (x # xs)"
      by (simp add: add_def register_def Node_def) }
  { assume "is_str x" and h: "\<exists>y\<in>set (x # xs). \<forall>k. y = PStr k \<longrightarrow> map_of (nodes s) k = None"
    from resolve_fail[OF h] \<open>is_str x\<close> a
    show "add opr nm (Some (x # xs)) s = Inl KeyError"
      by (simp add: add_def) }
  { assume "\<not> is_str x"
    with a show "\<exists>r s'. add opr nm (Some (x # xs)) s = Inr (r, s') \<and> parents (heap s' ! r) = x # xs"
      by (simp add: add_def register_def Node_def) }
qed

theorem add_mode_by_first_element_witness:
  "(\<exists>r s'. add OpSum ''S'' (Some [PStr ''A'', PStr ''B'']) two_values = Inr (r, s') \<and>
       parents (heap s' ! r) = [PNode 0, PNode 1]) \<and>
   add OpSum ''S'' (Some [PStr ''A'', PNode 1]) two_values = Inl KeyError \<and>
   (\<exists>r s'. add OpSum ''S'' (Some [PNode 0, PStr ''B'']) two_values = Inr (r, s') \<and>
       parents (heap s' ! r) = [PNode 0, PStr ''B''])"
  using add_mode_by_first_element [of "''S''" two_values OpSum "PStr ''A''" "[PStr ''B'']"]
    add_mode_by_first_element [of "''S''" two_values OpSum "PStr ''A''" "[PNode 1]"]
    add_mode_by_first_element [of "''S''" two_values OpSum "PNode 0" "[PStr ''B'']"]
  by (simp add: two_values_def OpSum_def)

section \<open>Flatten and unflatten\<close>

lemma unflatten_loop_roundtrip:
  assumes "list_all wf_tensor ts"
    and "data array = pre @ concat (map data ts)"
    and "shape array = [length (data array)]"
  shows "array_1d_arrays_nd_loop array (length pre) acc (map shape ts) = Inr (acc @ ts)"
  using assms
proof (induction ts arbitrary: pre acc)
  case Nil
  then show ?case by simp
next
  case (Cons T ts)
  let ?n = "size_from_shape (shape T)"
  from Cons.prems(1) have len: "length (data T) = ?n"
    by (simp add: wf_tensor_def)
  from Cons.prems(1) have wfs: "list_all wf_tensor ts"
    by simp
  have d: "data array = (pre @ data T) @ concat (map data ts)"
    using Cons.prems(2) by simp
  have sl: "slice array (length pre) (length pre + ?n) = Inr \<lparr>shape = [?n], data = data T\<rparr>"
    using Cons.prems(2,3) len by (simp add: min_def)
  have rs: "reshape \<lparr>shape = [?n], data = data T\<rparr> (shape T) = Inr T"
    using len by (simp add: reshape_def)
  have "array_1d_arrays_nd_loop array (length (pre @ data T)) (acc @ [T]) (map shape ts)
          = Inr ((acc @ [T]) @ ts)"
    by (rule Cons.IH[OF wfs d Cons.prems(3)])
  then show ?case using sl rs len by simp
qed

text \<open>
  Claim C6, as the code has it.  For every non-empty list of (well-formed) tensors,
  \<open>arrays_nd_array_1d\<close> returns a flat array, and \<open>array_1d_arrays_nd\<close> on that array and the
  tensors' shapes returns the original list: the same shapes and the same elements.
\<close>

theorem flatten_unflatten_roundtrip:
  "arrays \<noteq> [] \<and> list_all wf_tensor arrays \<longrightarrow>
     (\<exists>flat. arrays_nd_array_1d arrays = Inr flat \<and>
        array_1d_arrays_nd flat (map shape arrays) = Inr arrays)"
proof (intro impI, elim conjE)
  assume ne: "arrays \<noteq> []" and wf: "list_all wf_tensor arrays"
  let ?flat = "\<lparr>shape = [length (concat (map data arrays))], data = concat (map data arrays)\<rparr>"
  have m: "map data (map flatten arrays) = map data arrays"
    by (simp add: flatten_def)
  have f: "arrays_nd_array_1d arrays = Inr ?flat"
    using ne unfolding arrays_nd_array_1d_def concatenate_def m by simp
  have "array_1d_arrays_nd_loop ?flat (length ([]::'a list)) [] (map shape arrays) = Inr ([] @ arrays)"
    by (rule unflatten_loop_roundtrip[OF wf]) simp_all
  then have "array_1d_arrays_nd ?flat (map shape arrays) = Inr arrays"
    by (simp add: array_1d_arrays_nd_def)
  with f show "\<exists>flat. arrays_nd_array_1d arrays = Inr flat \<and>
        array_1d_arrays_nd flat (map shape arrays) = Inr arrays" by blast
qed

theorem flatten_unflatten_roundtrip_witness:
  "\<exists>flat. arrays_nd_array_1d [\<lparr>shape = [1, 2], data = [5, 6 :: int]\<rparr>, \<lparr>shape = [], data = [7]\<rparr>]
             = Inr flat \<and>
          array_1d_arrays_nd flat [[1, 2], []]
             = Inr [\<lparr>shape = [1, 2], data = [5, 6]\<rparr>, \<lparr>shape = [], data = [7]\<rparr>]"
  using flatten_unflatten_roundtrip
    [of "[\<lparr>shape = [1, 2], data = [5, 6 :: int]\<rparr>, \<lparr>shape = [], data = [7]\<rparr>]"]
  by (simp add: wf_tensor_def)

text \<open>
  Claim C6 as stated ("for every list of tensors") fails on the empty list:
  \<open>np.concatenate\<close> of no array raises \<open>ValueError\<close>, so there is nothing to unflatten.
\<close>

theorem flatten_empty_list_counterexample:
  "arrays_nd_array_1d ([] :: int tensor list) = Inl ValueError"
  by (simp add: arrays_nd_array_1d_def concatenate_def)

section \<open>Gradient check\<close>

lemma gradient_check_loop_frame:
  "length st \<le> length (snd (gradient_check_loop np f eps p fd is st)) \<and>
   (\<forall>a<length st. a \<noteq> fd \<longrightarrow> snd (gradient_check_loop np f eps p fd is st) ! a = st ! a)"
proof (induction "is" arbitrary: st)
  case Nil
  then show ?case by simp
next
  case (Cons i "is")
  let ?st1 = "st @ [st ! p]"
  let ?st2 = "?st1 @ [?st1 ! p]"
  let ?st3 = "?st2[length st := (?st2 ! length st)[i := ?st2 ! length st ! i - eps]]"
  let ?st4 = "?st3[length ?st1 := (?st3 ! length ?st1)[i := ?st3 ! length ?st1 ! i + eps]]"
  have unf: "gradient_check_loop np f eps p fd (i # is) st =
     (case f (?st4 ! length ?st1) of
           Inl e \<Rightarrow> (Some e, ?st4)
         | Inr a \<Rightarrow>
            (case f (?st4 ! length st) of
               Inl e \<Rightarrow> (Some e, ?st4)
             | Inr b \<Rightarrow>
                 gradient_check_loop np f eps p fd is
                   (?st4[fd := (?st4 ! fd)[i := (a - b) / (two np * eps)]])))"
    by (simp only: gradient_check_loop.simps alloc_def Let_def prod.case)
  have len4: "length ?st4 = length st + 2" by simp
  have old4: "\<forall>a<length st. ?st4 ! a = st ! a" by (simp add: nth_append)
  show ?case
  proof (cases "f (?st4 ! length ?st1)")
    case (Inl e)
    then show ?thesis unfolding unf using old4 by simp
  next
    case (Inr a)
    note A = Inr
    show ?thesis
    proof (cases "f (?st4 ! length st)")
      case (Inl e)
      then show ?thesis unfolding unf using old4 A by simp
    next
      case (Inr b)
      let ?st5 = "?st4[fd := (?st4 ! fd)[i := (a - b) / (two np * eps)]]"
      have eq: "gradient_check_loop np f eps p fd (i # is) st = gradient_check_loop np f eps p fd is ?st5"
        unfolding unf using A Inr by simp
      have len5: "length ?st5 = length st + 2" by simp
      have old5: "\<forall>a<length st. a \<noteq> fd \<longrightarrow> ?st5 ! a = st ! a"
        by (simp add: nth_append)
      from Cons.IH[of ?st5] len5 old5 show ?thesis
        unfolding eq by auto
    qed
  qed
qed

lemma gradient_check_loop_value:
  assumes "p < length st" "fd < length st" "p \<noteq> fd"
    and "\<forall>i\<in>set is. f ((st ! p)[i := st ! p ! i + eps]) = Inr (up i) \<and>
                     f ((st ! p)[i := st ! p ! i - eps]) = Inr (down i)"
  shows "fst (gradient_check_loop np f eps p fd is st) = None \<and>
         snd (gradient_check_loop np f eps p fd is st) ! fd =
           fold (\<lambda>i xs. xs[i := (up i - down i) / (two np * eps)]) is (st ! fd)"
  using assms
proof (induction "is" arbitrary: st)
  case Nil
  then show ?case by simp
next
  case (Cons i "is")
  let ?st1 = "st @ [st ! p]"
  let ?st2 = "?st1 @ [?st1 ! p]"
  let ?st3 = "?st2[length st := (?st2 ! length st)[i := ?st2 ! length st ! i - eps]]"
  let ?st4 = "?st3[length ?st1 := (?st3 ! length ?st1)[i := ?st3 ! length ?st1 ! i + eps]]"
  have unf: "gradient_check_loop np f eps p fd (i # is) st =
     (case f (?st4 ! length ?st1) of
           Inl e \<Rightarrow> (Some e, ?st4)
         | Inr a \<Rightarrow>
            (case f (?st4 ! length st) of
               Inl e \<Rightarrow> (Some e, ?st4)
             | Inr b \<Rightarrow>
                 gradient_check_loop np f eps p fd is
                   (?st4[fd := (?st4 ! fd)[i := (a - b) / (two np * eps)]])))"
    by (simp only: gradient_check_loop.simps alloc_def Let_def prod.case)
  have pmax: "?st4 ! length ?st1 = (st ! p)[i := st ! p ! i + eps]"
    using Cons.prems(1) by (simp add: nth_append)
  have pmin: "?st4 ! length st = (st ! p)[i := st ! p ! i - eps]"
    using Cons.prems(1) by (simp add: nth_append)
  have fa: "f (?st4 ! length ?st1) = Inr (up i)" and fb: "f (?st4 ! length st) = Inr (down i)"
    unfolding pmax pmin using Cons.prems(4) by simp_all
  let ?st5 = "?st4[fd := (?st4 ! fd)[i := (up i - down i) / (two np * eps)]]"
  have eq: "gradient_check_loop np f eps p fd (i # is) st = gradient_check_loop np f eps p fd is ?st5"
    unfolding unf fa fb by simp
  have p5: "?st5 ! p = st ! p" using Cons.prems(1,3) by (simp add: nth_append)
  have fd5: "?st5 ! fd = (st ! fd)[i := (up i - down i) / (two np * eps)]"
    using Cons.prems(2) by (simp add: nth_append)
  have "fst (gradient_check_loop np f eps p fd is ?st5) = None \<and>
         snd (gradient_check_loop np f eps p fd is ?st5) ! fd =
           fold (\<lambda>i xs. xs[i := (up i - down i) / (two np * eps)]) is (?st5 ! fd)"
  proof (rule Cons.IH)
    show "p < length ?st5" using Cons.prems(1) by simp
    show "fd < length ?st5" using Cons.prems(2) by simp
    show "p \<noteq> fd" by fact
    show "\<forall>i\<in>set is. f ((?st5 ! p)[i := ?st5 ! p ! i + eps]) = Inr (up i) \<and>
                     f ((?st5 ! p)[i := ?st5 ! p ! i - eps]) = Inr (down i)"
      unfolding p5 using Cons.prems(4) by simp
  qed
  then show ?case unfolding eq fd5 by simp
qed

lemma fold_update_upt:
  "k \<le> length xs \<Longrightarrow> fold (\<lambda>i ys. ys[i := v i]) [0..<k] xs = map v [0..<k] @ drop k xs"
proof (induction k)
  case 0
  then show ?case by simp
next
  case (Suc k)
  then have "k < length xs" by simp
  then have "(map v [0..<k] @ drop k xs)[k := v k] = map v [0..<k] @ [v k] @ drop (Suc k) xs"
    by (simp add: list_update_append Cons_nth_drop_Suc[symmetric])
  with Suc show ?case by simp
qed

text \<open>
  Claim C4.  When \<open>parameters\<close> and \<open>grad\<close> have the same length and \<open>forward_func\<close> returns
  \<open>up i\<close> on the parameters with component \<open>i\<close> increased by the perturbation and \<open>down i\<close>
  on the parameters with component \<open>i\<close> decreased by it, \<open>gradient_check\<close> returns the norm
  of the difference between the vector of the centered differences
  \<open>(up i - down i) / (2 * perturbation)\<close> and \<open>grad\<close>, divided by the sum of their norms.
  The threshold plays no part: the call returns the same for every threshold.
\<close>

theorem gradient_check_value:
  "(\<forall>thr'. gradient_check np p g f eps thr st = gradient_check np p g f eps thr' st) \<and>
   (p < length st \<and> g < length st \<and> length (st ! p) = length (st ! g) \<and>
    (\<forall>i<length (st ! p).
        f ((st ! p)[i := st ! p ! i + eps]) = Inr (up i) \<and>
        f ((st ! p)[i := st ! p ! i - eps]) = Inr (down i)) \<longrightarrow>
    fst (gradient_check np p g f eps thr st) =
      Inr (norm np (map2 (-) (map (\<lambda>i. (up i - down i) / (two np * eps)) [0..<length (st ! p)]) (st ! g)) /
           (norm np (map (\<lambda>i. (up i - down i) / (two np * eps)) [0..<length (st ! p)]) +
            norm np (st ! g))))"
proof (intro conjI allI impI; (elim conjE)?)
  fix thr'
  show "gradient_check np p g f eps thr st = gradient_check np p g f eps thr' st"
    by (simp add: gradient_check_def)
next
  assume p: "p < length st" and g: "g < length st" and len: "length (st ! p) = length (st ! g)"
    and f: "\<forall>i<length (st ! p).
        f ((st ! p)[i := st ! p ! i + eps]) = Inr (up i) \<and>
        f ((st ! p)[i := st ! p ! i - eps]) = Inr (down i)"
  let ?n = "length (st ! p)"
  let ?st1 = "st @ [replicate ?n 0]"
  let ?fd = "length st"
  let ?L = "gradient_check_loop np f eps p ?fd [0..<?n] ?st1"
  let ?v = "\<lambda>i. (up i - down i) / (two np * eps)"
  have p1: "?st1 ! p = st ! p" using p by (simp add: nth_append)
  have "fst ?L = None \<and> snd ?L ! ?fd = fold (\<lambda>i xs. xs[i := ?v i]) [0..<?n] (?st1 ! ?fd)"
  proof (rule gradient_check_loop_value)
    show "p < length ?st1" using p by simp
    show "?fd < length ?st1" by simp
    show "p \<noteq> ?fd" using p by simp
    show "\<forall>i\<in>set [0..<?n]. f ((?st1 ! p)[i := ?st1 ! p ! i + eps]) = Inr (up i) \<and>
                     f ((?st1 ! p)[i := ?st1 ! p ! i - eps]) = Inr (down i)"
      unfolding p1 using f by simp
  qed
  then have L1: "fst ?L = None" and L2: "snd ?L ! ?fd = map ?v [0..<?n]"
    by (simp_all add: fold_update_upt)
  have "snd ?L ! g = ?st1 ! g"
    using gradient_check_loop_frame[of ?st1 np f eps p ?fd "[0..<?n]"] g by simp
  then have L3: "snd ?L ! g = st ! g" using g by (simp add: nth_append)
  obtain st2 where L: "?L = (None, st2)" using L1 by (cases ?L) simp
  have gc: "gradient_check np p g f eps thr st =
      (Inr (norm np (map2 (-) (st2 ! ?fd) (st2 ! g)) / (norm np (st2 ! ?fd) + norm np (st2 ! g))), st2)"
    using len L by (simp add: gradient_check_def alloc_def Let_def)
  show "fst (gradient_check np p g f eps thr st) =
      Inr (norm np (map2 (-) (map ?v [0..<?n]) (st ! g)) /
           (norm np (map ?v [0..<?n]) + norm np (st ! g)))"
    unfolding gc using L2 L3 L by simp
qed

theorem gradient_check_value_witness:
  "fst (gradient_check l2 0 1 (\<lambda>xs. Inr (sum_list xs)) (1/2) 0 [[3, 4], [1, 1]]) = Inr 0"
  using gradient_check_value [of l2 0 1 "\<lambda>xs. Inr (sum_list xs)" "1/2" 0 "[[3, 4], [1, 1]]"
      "\<lambda>i. 15/2" "\<lambda>i. 13/2"]
  by (simp add: l2_def less_Suc_eq numeral_2_eq_2)

text \<open>
  Claim C10.  Whatever \<open>gradient_check\<close> returns or raises, every array that existed
  before the call, \<open>parameters\<close> and \<open>grad\<close> among them, holds the same elements after
  it: the perturbations are written to fresh copies.
\<close>

theorem gradient_check_frame:
  "p < length st \<and> g < length st \<longrightarrow>
     snd (gradient_check np p g f eps thr st) ! p = st ! p \<and>
     snd (gradient_check np p g f eps thr st) ! g = st ! g \<and>
     (\<forall>a<length st. snd (gradient_check np p g f eps thr st) ! a = st ! a)"
proof (intro impI, elim conjE)
  assume p: "p < length st" and g: "g < length st"
  let ?n = "length (st ! g)"
  let ?st1 = "st @ [replicate ?n 0]"
  let ?L = "gradient_check_loop np f eps p (length st) [0..<?n] ?st1"
  have fr: "\<forall>a<length st. snd ?L ! a = st ! a"
    using gradient_check_loop_frame[of ?st1 np f eps p "length st" "[0..<?n]"]
    by (simp add: nth_append)
  have "snd (gradient_check np p g f eps thr st) = st \<or> snd (gradient_check np p g f eps thr st) = snd ?L"
    by (cases ?L) (auto simp: gradient_check_def alloc_def Let_def split: option.splits)
  then have "\<forall>a<length st. snd (gradient_check np p g f eps thr st) ! a = st ! a"
    using fr by auto
  then show "snd (gradient_check np p g f eps thr st) ! p = st ! p \<and>
     snd (gradient_check np p g f eps thr st) ! g = st ! g \<and>
     (\<forall>a<length st. snd (gradient_check np p g f eps thr st) ! a = st ! a)"
    using p g by simp
qed

theorem gradient_check_frame_witness:
  "snd (gradient_check l2 0 1 (\<lambda>xs. Inr (sum_list xs)) (1/2) 0 [[3, 4], [1, 1]]) ! 0 = [3, 4] \<and>
   snd (gradient_check l2 0 1 (\<lambda>xs. Inr (sum_list xs)) (1/2) 0 [[3, 4], [1, 1]]) ! 1 = [1, 1]"
  using gradient_check_frame [of 0 "[[3, 4], [1, 1]]" 1 l2 "\<lambda>xs. Inr (sum_list xs)" "1/2" 0]
  by simp

section \<open>Children and topological order\<close>

lemma append_child_ok:
  "\<forall>x\<in>set ps. \<exists>p. x = PNode p \<Longrightarrow>
   \<exists>h'. append_child h n ps = Inr h' \<and> length h' = length h \<and>
     (\<forall>r<length h. name (h' ! r) = name (h ! r) \<and> op (h' ! r) = op (h ! r) \<and>
        parents (h' ! r) = parents (h ! r) \<and>
        children (h' ! r) = children (h ! r) @ slots r n ps)"
proof (induction ps arbitrary: h)
  case Nil
  then show ?case by (simp add: slots_def)
next
  case (Cons x ps)
  then obtain p where x: "x = PNode p" by auto
  let ?h1 = "h[p := (h ! p)\<lparr>children := children (h ! p) @ [n]\<rparr>]"
  from Cons.prems have "\<forall>x\<in>set ps. \<exists>p. x = PNode p" by simp
  from Cons.IH[OF this, of ?h1] obtain h' where
    h': "append_child ?h1 n ps = Inr h'" "length h' = length ?h1"
    and r: "\<forall>r<length ?h1. name (h' ! r) = name (?h1 ! r) \<and> op (h' ! r) = op (?h1 ! r) \<and>
        parents (h' ! r) = parents (?h1 ! r) \<and>
        children (h' ! r) = children (?h1 ! r) @ slots r n ps" by blast
  have "\<forall>r<length h. name (h' ! r) = name (h ! r) \<and> op (h' ! r) = op (h ! r) \<and>
        parents (h' ! r) = parents (h ! r) \<and>
        children (h' ! r) = children (h ! r) @ slots r n (x # ps)"
  proof (intro allI impI)
    fix r assume "r < length h"
    then have "r < length ?h1" by simp
    with r have *: "name (h' ! r) = name (?h1 ! r) \<and> op (h' ! r) = op (?h1 ! r) \<and>
        parents (h' ! r) = parents (?h1 ! r) \<and>
        children (h' ! r) = children (?h1 ! r) @ slots r n ps" by blast
    show "name (h' ! r) = name (h ! r) \<and> op (h' ! r) = op (h ! r) \<and>
        parents (h' ! r) = parents (h ! r) \<and>
        children (h' ! r) = children (h ! r) @ slots r n (x # ps)"
      using * \<open>r < length h\<close> x by (cases "r = p") (simp_all add: slots_def)
  qed
  with h' x show ?case by simp
qed

lemma append_child_str:
  "\<exists>x\<in>set ps. is_str x \<Longrightarrow> append_child h n ps = Inl AttributeError"
proof (induction ps arbitrary: h)
  case Nil then show ?case by simp
next
  case (Cons x ps) then show ?case by (cases x) auto
qed

lemma update_children_ok:
  assumes "\<forall>n\<in>set ns. n < length h \<and> (\<forall>x\<in>set (parents (h ! n)). \<exists>p. x = PNode p)"
  shows "\<exists>h'. update_children h ns = Inr h' \<and> length h' = length h \<and>
     (\<forall>r<length h. name (h' ! r) = name (h ! r) \<and> op (h' ! r) = op (h ! r) \<and>
        parents (h' ! r) = parents (h ! r) \<and>
        children (h' ! r) = children (h ! r) @ concat (map (\<lambda>n. slots r n (parents (h ! n))) ns))"
  using assms
proof (induction ns arbitrary: h)
  case Nil
  then show ?case by simp
next
  case (Cons n ns)
  from Cons.prems have pn: "\<forall>x\<in>set (parents (h ! n)). \<exists>p. x = PNode p" and nl: "n < length h" by auto
  from append_child_ok[OF pn, of h n] obtain h1 where
    h1: "append_child h n (parents (h ! n)) = Inr h1" "length h1 = length h"
    and r1: "\<forall>r<length h. name (h1 ! r) = name (h ! r) \<and> op (h1 ! r) = op (h ! r) \<and>
        parents (h1 ! r) = parents (h ! r) \<and>
        children (h1 ! r) = children (h ! r) @ slots r n (parents (h ! n))" by blast
  have pre: "\<forall>m\<in>set ns. m < length h1 \<and> (\<forall>x\<in>set (parents (h1 ! m)). \<exists>p. x = PNode p)"
    using Cons.prems h1(2) r1 by auto
  from Cons.IH[OF pre] obtain h' where
    h': "update_children h1 ns = Inr h'" "length h' = length h1"
    and r': "\<forall>r<length h1. name (h' ! r) = name (h1 ! r) \<and> op (h' ! r) = op (h1 ! r) \<and>
        parents (h' ! r) = parents (h1 ! r) \<and>
        children (h' ! r) = children (h1 ! r) @ concat (map (\<lambda>n. slots r n (parents (h1 ! n))) ns)"
    by blast
  have same: "map (\<lambda>m. slots r m (parents (h1 ! m))) ns = map (\<lambda>m. slots r m (parents (h ! m))) ns" for r
    using Cons.prems r1 by (intro map_cong) auto
  have "\<forall>r<length h. name (h' ! r) = name (h ! r) \<and> op (h' ! r) = op (h ! r) \<and>
        parents (h' ! r) = parents (h ! r) \<and>
        children (h' ! r) = children (h ! r) @ concat (map (\<lambda>n. slots r n (parents (h ! n))) (n # ns))"
    using r1 r' h1(2) same by simp
  with h1 h' show ?case by simp
qed

lemma sweep_stop: "\<not> i < length unsorted \<Longrightarrow> sweep h i unsorted internal = (unsorted, internal)"
  by (subst sweep.simps) simp

lemma sweep_remove:
  "i < length unsorted \<Longrightarrow> is_sink h unsorted (unsorted ! i) \<Longrightarrow>
   sweep h i unsorted internal =
     sweep h (i + 1) (remove1 (unsorted ! i) unsorted) (internal @ [unsorted ! i])"
  by (subst sweep.simps) (simp add: Let_def)

lemma sweep_keep:
  "i < length unsorted \<Longrightarrow> \<not> is_sink h unsorted (unsorted ! i) \<Longrightarrow>
   sweep h i unsorted internal = sweep h (i + 1) unsorted internal"
  by (subst sweep.simps) (simp add: Let_def)

lemma sweep_inv:
  "\<forall>n\<in>set U. set (children (h ! n)) \<subseteq> set U \<Longrightarrow> sort_inv h U unsorted internal \<Longrightarrow>
     sort_inv h U (fst (sweep h i unsorted internal)) (snd (sweep h i unsorted internal))"
proof (induction h i unsorted internal rule: sweep.induct)
  case (1 h i unsorted internal)
  note cl = "1.prems"(1) and inv = "1.prems"(2)
  show ?case
  proof (cases "i < length unsorted")
    case False
    then have "sweep h i unsorted internal = (unsorted, internal)" by (rule sweep_stop)
    then show ?thesis using inv by simp
  next
    case True
    let ?n = "unsorted ! i"
    have nin: "?n \<in> set unsorted" using True by simp
    show ?thesis
    proof (cases "is_sink h unsorted ?n")
      case False
      have eq: "sweep h i unsorted internal = sweep h (i + 1) unsorted internal"
        using True False by (rule sweep_keep)
      show ?thesis unfolding eq by (rule "1.IH"(2)[OF True refl False cl inv])
    next
      case sink: True
      from inv have d: "distinct unsorted" "distinct internal"
        and dj: "set unsorted \<inter> set internal = {}"
        and un: "set unsorted \<union> set internal = set U"
        and ch: "\<forall>k<length internal. \<forall>c\<in>set (children (h ! (internal ! k))). c \<in> set (take k internal)"
        by (simp_all add: sort_inv_def)
      have nU: "?n \<in> set U" using nin un by blast
      have nint: "?n \<notin> set internal" using nin dj by blast
      have cn: "\<forall>c\<in>set (children (h ! ?n)). c \<in> set internal"
      proof
        fix c assume c: "c \<in> set (children (h ! ?n))"
        then have "c \<notin> set unsorted" using sink by (simp add: is_sink_def list_all_iff)
        moreover have "c \<in> set U" using cl nU c by blast
        ultimately show "c \<in> set internal" using un by blast
      qed
      have ch': "\<forall>k<length (internal @ [?n]). \<forall>c\<in>set (children (h ! ((internal @ [?n]) ! k))).
                   c \<in> set (take k (internal @ [?n]))"
      proof (intro allI impI)
        fix k assume "k < length (internal @ [?n])"
        then consider "k < length internal" | "k = length internal" by fastforce
        then show "\<forall>c\<in>set (children (h ! ((internal @ [?n]) ! k))). c \<in> set (take k (internal @ [?n]))"
        proof cases
          case 1
          then show ?thesis using ch by (simp add: nth_append)
        next
          case 2
          then show ?thesis using cn by simp
        qed
      qed
      have sr: "set (remove1 ?n unsorted) = set unsorted - {?n}"
        using d(1) by (rule set_remove1_eq)
      have c1: "distinct (remove1 ?n unsorted)" using d(1) by simp
      have c2: "distinct (internal @ [?n])" using d(2) nint by simp
      have c3: "set (remove1 ?n unsorted) \<inter> set (internal @ [?n]) = {}"
        unfolding sr using dj by auto
      have c4: "set (remove1 ?n unsorted) \<union> set (internal @ [?n]) = set U"
        unfolding sr using un nin by auto
      have "sort_inv h U (remove1 ?n unsorted) (internal @ [?n])"
        unfolding sort_inv_def using c1 c2 c3 c4 ch' by blast
      then have "sort_inv h U
          (fst (sweep h (i + 1) (remove1 ?n unsorted) (internal @ [?n])))
          (snd (sweep h (i + 1) (remove1 ?n unsorted) (internal @ [?n])))"
        by (rule "1.IH"(1)[OF True refl sink cl])
      moreover have "sweep h i unsorted internal =
          sweep h (i + 1) (remove1 ?n unsorted) (internal @ [?n])"
        using True sink by (rule sweep_remove)
      ultimately show ?thesis by simp
    qed
  qed
qed

lemma sweep_length_le: "length (fst (sweep h i unsorted internal)) \<le> length unsorted"
proof (induction h i unsorted internal rule: sweep.induct)
  case (1 h i unsorted internal)
  show ?case
  proof (cases "i < length unsorted")
    case False
    then have "sweep h i unsorted internal = (unsorted, internal)" by (rule sweep_stop)
    then show ?thesis by simp
  next
    case True
    show ?thesis
    proof (cases "is_sink h unsorted (unsorted ! i)")
      case False
      have eq: "sweep h i unsorted internal = sweep h (i + 1) unsorted internal"
        using True False by (rule sweep_keep)
      show ?thesis unfolding eq by (rule "1.IH"(2)[OF True refl False])
    next
      case sink: True
      have "length (remove1 (unsorted ! i) unsorted) \<le> length unsorted"
        by (simp add: length_remove1)
      moreover have "length (fst (sweep h (i + 1) (remove1 (unsorted ! i) unsorted) (internal @ [unsorted ! i])))
          \<le> length (remove1 (unsorted ! i) unsorted)"
        by (rule "1.IH"(1)[OF True refl sink])
      moreover have "sweep h i unsorted internal =
          sweep h (i + 1) (remove1 (unsorted ! i) unsorted) (internal @ [unsorted ! i])"
        using True sink by (rule sweep_remove)
      ultimately show ?thesis by simp
    qed
  qed
qed

lemma sweep_progress:
  "\<exists>j\<ge>i. j < length unsorted \<and> is_sink h unsorted (unsorted ! j) \<Longrightarrow>
   length (fst (sweep h i unsorted internal)) < length unsorted"
proof (induction h i unsorted internal rule: sweep.induct)
  case (1 h i unsorted internal)
  from "1.prems" obtain j where j: "i \<le> j" "j < length unsorted" "is_sink h unsorted (unsorted ! j)"
    by blast
  then have True: "i < length unsorted" by simp
  show ?case
  proof (cases "is_sink h unsorted (unsorted ! i)")
    case sink: True
    have "length (remove1 (unsorted ! i) unsorted) < length unsorted"
      using True by (simp add: length_remove1)
    moreover have "length (fst (sweep h (i + 1) (remove1 (unsorted ! i) unsorted) (internal @ [unsorted ! i])))
        \<le> length (remove1 (unsorted ! i) unsorted)" by (rule sweep_length_le)
    moreover have "sweep h i unsorted internal =
          sweep h (i + 1) (remove1 (unsorted ! i) unsorted) (internal @ [unsorted ! i])"
      using True sink by (rule sweep_remove)
    ultimately show ?thesis by simp
  next
    case False
    with j have "i \<noteq> j" by auto
    with j have "\<exists>j\<ge>i + 1. j < length unsorted \<and> is_sink h unsorted (unsorted ! j)" 
      by (intro exI[of _ j]) simp
    then have "length (fst (sweep h (i + 1) unsorted internal)) < length unsorted"
      by (rule "1.IH"(2)[OF True refl False])
    moreover have "sweep h i unsorted internal = sweep h (i + 1) unsorted internal"
      using True False by (rule sweep_keep)
    ultimately show ?thesis by simp
  qed
qed

lemma sink_exists:
  assumes "unsorted \<noteq> []"
    and "\<forall>n\<in>set unsorted. \<forall>c\<in>set (children (h ! n)). rank n < (rank c :: nat)"
  shows "\<exists>j\<ge>0. j < length unsorted \<and> is_sink h unsorted (unsorted ! j)"
proof -
  have fin: "finite (rank ` set unsorted)" and ne: "rank ` set unsorted \<noteq> {}"
    using assms(1) by simp_all
  then have "Max (rank ` set unsorted) \<in> rank ` set unsorted" by (rule Max_in)
  then obtain n where n: "n \<in> set unsorted" "rank n = Max (rank ` set unsorted)" by auto
  have "is_sink h unsorted n"
    unfolding is_sink_def list_all_iff
  proof
    fix c assume "c \<in> set (children (h ! n))"
    with assms(2) n have lt: "Max (rank ` set unsorted) < rank c" by auto
    show "c \<notin> set unsorted"
    proof
      assume "c \<in> set unsorted"
      then have "rank c \<le> Max (rank ` set unsorted)" using fin by (intro Max_ge) auto
      with lt show False by simp
    qed
  qed
  moreover from n obtain j where "j < length unsorted" "unsorted ! j = n"
    by (auto simp: in_set_conv_nth)
  ultimately show ?thesis by auto
qed

lemma sort_loop_nil: "sort_loop h [] internal = Some internal"
  by (subst sort_loop.simps) simp

lemma sort_loop_step:
  "unsorted \<noteq> [] \<Longrightarrow>
   sort_loop h unsorted internal =
     sort_loop h (fst (sweep h 0 unsorted internal)) (snd (sweep h 0 unsorted internal))"
  by (subst sort_loop.simps) (simp add: Let_def)

lemma sort_loop_returns:
  assumes cl: "\<forall>n\<in>set U. set (children (h ! n)) \<subseteq> set U"
    and rk: "\<forall>n\<in>set U. \<forall>c\<in>set (children (h ! n)). rank n < (rank c :: nat)"
  shows "sort_inv h U unsorted internal \<Longrightarrow>
     \<exists>res. sort_loop h unsorted internal = Some res \<and> sort_inv h U [] res"
proof (induction "length unsorted" arbitrary: unsorted internal rule: less_induct)
  case less
  show ?case
  proof (cases "unsorted = []")
    case True
    then show ?thesis using less.prems by (simp add: sort_loop_nil)
  next
    case False
    let ?r = "sweep h 0 unsorted internal"
    have sub: "set unsorted \<subseteq> set U" using less.prems by (auto simp: sort_inv_def)
    have rk': "\<forall>n\<in>set unsorted. \<forall>c\<in>set (children (h ! n)). rank n < rank c"
      using rk sub by blast
    have "\<exists>j\<ge>0. j < length unsorted \<and> is_sink h unsorted (unsorted ! j)"
      using False rk' by (rule sink_exists)
    then have lt: "length (fst ?r) < length unsorted" by (rule sweep_progress)
    have inv: "sort_inv h U (fst ?r) (snd ?r)" by (rule sweep_inv[OF cl less.prems])
    from less.hyps[OF lt inv] obtain res where
      "sort_loop h (fst ?r) (snd ?r) = Some res" "sort_inv h U [] res" by blast
    then show ?thesis unfolding sort_loop_step[OF False] by blast
  qed
qed

lemma sort_loop_inv:
  assumes ret: "sort_loop h unsorted internal = Some res"
  shows "(\<forall>n\<in>set U. set (children (h ! n)) \<subseteq> set U) \<longrightarrow> sort_inv h U unsorted internal \<longrightarrow>
         sort_inv h U [] res"
proof (rule sort_loop.raw_induct[where P = "\<lambda>h unsorted internal res.
         (\<forall>n\<in>set U. set (children (h ! n)) \<subseteq> set U) \<longrightarrow> sort_inv h U unsorted internal \<longrightarrow>
         sort_inv h U [] res", OF _ ret])
  fix f :: "'a node list \<Rightarrow> nat list \<Rightarrow> nat list \<Rightarrow> nat list option"
    and h :: "'a node list" and unsorted internal res :: "nat list"
  assume IH: "\<And>h unsorted internal y. f h unsorted internal = Some y \<Longrightarrow>
         (\<forall>n\<in>set U. set (children (h ! n)) \<subseteq> set U) \<longrightarrow> sort_inv h U unsorted internal \<longrightarrow>
         sort_inv h U [] y"
    and eq: "(if 0 < length unsorted
              then let r = sweep h 0 unsorted internal in f h (fst r) (snd r)
              else Some internal) = Some res"
  show "(\<forall>n\<in>set U. set (children (h ! n)) \<subseteq> set U) \<longrightarrow> sort_inv h U unsorted internal \<longrightarrow>
         sort_inv h U [] res"
  proof (intro impI)
    assume cl: "\<forall>n\<in>set U. set (children (h ! n)) \<subseteq> set U"
      and inv: "sort_inv h U unsorted internal"
    show "sort_inv h U [] res"
    proof (cases "unsorted = []")
      case True
      with eq have "res = internal" by simp
      with inv True show ?thesis by simp
    next
      case False
      with eq have "f h (fst (sweep h 0 unsorted internal))
          (snd (sweep h 0 unsorted internal)) = Some res"
        by (simp add: Let_def)
      from IH[OF this] sweep_inv[OF cl inv, of 0] cl show ?thesis by blast
    qed
  qed
qed

lemma topological_sort_eq:
  "topological_sort h ns =
     (if filter (\<lambda>n. parents (h ! n) = []) ns = [] then Some (Inl NoInputNodes)
      else case sort_loop h (filter (\<lambda>n. parents (h ! n) \<noteq> []) ns) [] of
             None \<Rightarrow> None
           | Some r \<Rightarrow> Some (Inr (filter (\<lambda>n. parents (h ! n) = []) ns, rev r)))"
proof -
  have ps_eq: "filter (\<lambda>n. length (parents (h ! n)) = 0) ns = filter (\<lambda>n. parents (h ! n) = []) ns"
    by simp
  have U_eq: "filter (\<lambda>n. n \<notin> set (filter (\<lambda>n. parents (h ! n) = []) ns)) ns =
      filter (\<lambda>n. parents (h ! n) \<noteq> []) ns"
    by (rule filter_cong) auto
  show ?thesis
    unfolding topological_sort_def Let_def ps_eq U_eq by simp
qed

lemma wf_graphD:
  assumes "wf_graph s"
  shows "distinct (map fst (nodes s))" "distinct (values_of (nodes s))"
    "\<And>n. n \<in> set (values_of (nodes s)) \<Longrightarrow> n < length (heap s)"
    "\<And>i. i < length (nodes s) \<Longrightarrow> name (heap s ! (values_of (nodes s) ! i)) = fst (nodes s ! i)"
    "\<And>n c. n \<in> set (values_of (nodes s)) \<Longrightarrow> c \<in> set (children (heap s ! n)) \<Longrightarrow>
        c \<in> set (values_of (nodes s)) \<and> PNode n \<in> set (parents (heap s ! c))"
    "\<And>n x. n \<in> set (values_of (nodes s)) \<Longrightarrow> x \<in> set (parents (heap s ! n)) \<Longrightarrow>
        \<exists>p. x = PNode p \<and> p \<in> set (values_of (nodes s))"
proof -
  let ?ids = "values_of (nodes s)"
  have len: "length ?ids = length (nodes s)" by (simp add: values_of_def)
  from assms show "distinct (map fst (nodes s))" "distinct ?ids"
    by (simp_all add: wf_graph_def Let_def)
  from assms have all: "\<forall>i<length (nodes s).
          ?ids ! i < length (heap s) \<and>
          name (heap s ! (?ids ! i)) = fst (nodes s ! i) \<and>
          list_all (\<lambda>c. c \<in> set ?ids \<and> PNode (?ids ! i) \<in> set (parents (heap s ! c)))
            (children (heap s ! (?ids ! i))) \<and>
          list_all (\<lambda>x. case x of PStr k \<Rightarrow> False | PNode p \<Rightarrow> p \<in> set ?ids)
            (parents (heap s ! (?ids ! i)))"
    unfolding wf_graph_def Let_def list_all_iff len by simp
  { fix i assume i: "i < length (nodes s)"
    from all i show "name (heap s ! (?ids ! i)) = fst (nodes s ! i)" by simp }
  { fix n assume n: "n \<in> set ?ids"
    then obtain i where i: "i < length (nodes s)" "n = ?ids ! i"
      using len by (metis in_set_conv_nth)
    from all i show "n < length (heap s)" by simp
    { fix c assume "c \<in> set (children (heap s ! n))"
      with all i show "c \<in> set ?ids \<and> PNode n \<in> set (parents (heap s ! c))"
        by (auto simp: list_all_iff) }
    { fix x assume x: "x \<in> set (parents (heap s ! n))"
      from all i x have "case x of PStr k \<Rightarrow> False | PNode p \<Rightarrow> p \<in> set ?ids"
        by (auto simp: list_all_iff)
      then show "\<exists>p. x = PNode p \<and> p \<in> set ?ids"
        by (cases x) simp_all } }
qed

lemma wf_graphI:
  assumes "distinct (map fst (nodes s))" "distinct (values_of (nodes s))"
    and "\<And>n. n \<in> set (values_of (nodes s)) \<Longrightarrow> n < length (heap s)"
    and "\<And>i. i < length (nodes s) \<Longrightarrow> name (heap s ! (values_of (nodes s) ! i)) = fst (nodes s ! i)"
    and "\<And>n c. n \<in> set (values_of (nodes s)) \<Longrightarrow> c \<in> set (children (heap s ! n)) \<Longrightarrow>
        c \<in> set (values_of (nodes s)) \<and> PNode n \<in> set (parents (heap s ! c))"
    and "\<And>n x. n \<in> set (values_of (nodes s)) \<Longrightarrow> x \<in> set (parents (heap s ! n)) \<Longrightarrow>
        \<exists>p. x = PNode p \<and> p \<in> set (values_of (nodes s))"
  shows "wf_graph s"
proof -
  let ?ids = "values_of (nodes s)"
  have len: "length ?ids = length (nodes s)" by (simp add: values_of_def)
  have "\<forall>i<length ?ids.
          ?ids ! i < length (heap s) \<and>
          name (heap s ! (?ids ! i)) = fst (nodes s ! i) \<and>
          list_all (\<lambda>c. c \<in> set ?ids \<and> PNode (?ids ! i) \<in> set (parents (heap s ! c)))
            (children (heap s ! (?ids ! i))) \<and>
          list_all (\<lambda>x. case x of PStr k \<Rightarrow> False | PNode p \<Rightarrow> p \<in> set ?ids)
            (parents (heap s ! (?ids ! i)))"
  proof (intro allI impI)
    fix i assume i: "i < length ?ids"
    then have m: "?ids ! i \<in> set ?ids" by (rule nth_mem)
    have a: "?ids ! i < length (heap s)" using assms(3)[OF m] .
    have b: "name (heap s ! (?ids ! i)) = fst (nodes s ! i)" using assms(4) i len by simp
    have c: "list_all (\<lambda>c. c \<in> set ?ids \<and> PNode (?ids ! i) \<in> set (parents (heap s ! c)))
            (children (heap s ! (?ids ! i)))"
      unfolding list_all_iff using assms(5)[OF m] by blast
    have d: "list_all (\<lambda>x. case x of PStr k \<Rightarrow> False | PNode p \<Rightarrow> p \<in> set ?ids)
            (parents (heap s ! (?ids ! i)))"
      unfolding list_all_iff
    proof
      fix x assume "x \<in> set (parents (heap s ! (?ids ! i)))"
      from assms(6)[OF m this] show "case x of PStr k \<Rightarrow> False | PNode p \<Rightarrow> p \<in> set ?ids"
        by auto
    qed
    from a b c d show "?ids ! i < length (heap s) \<and>
          name (heap s ! (?ids ! i)) = fst (nodes s ! i) \<and>
          list_all (\<lambda>c. c \<in> set ?ids \<and> PNode (?ids ! i) \<in> set (parents (heap s ! c)))
            (children (heap s ! (?ids ! i))) \<and>
          list_all (\<lambda>x. case x of PStr k \<Rightarrow> False | PNode p \<Rightarrow> p \<in> set ?ids)
            (parents (heap s ! (?ids ! i)))" by blast
  qed
  then have "list_all (\<lambda>i.
          ?ids ! i < length (heap s) \<and>
          name (heap s ! (?ids ! i)) = fst (nodes s ! i) \<and>
          list_all (\<lambda>c. c \<in> set ?ids \<and> PNode (?ids ! i) \<in> set (parents (heap s ! c)))
            (children (heap s ! (?ids ! i))) \<and>
          list_all (\<lambda>x. case x of PStr k \<Rightarrow> False | PNode p \<Rightarrow> p \<in> set ?ids)
            (parents (heap s ! (?ids ! i)))) [0..<length ?ids]"
    unfolding list_all_iff[of _ "[0..<length ?ids]"] by simp
  then show ?thesis
    unfolding wf_graph_def Let_def using assms(1,2) by simp
qed

lemma rankedD:
  assumes "ranked rk s" "n \<in> set (values_of (nodes s))" "PNode p \<in> set (parents (heap s ! n))"
  shows "rk p < rk n"
proof -
  from assms(1,2) have "\<forall>x\<in>set (parents (heap s ! n)).
      (case x of PStr k \<Rightarrow> True | PNode p \<Rightarrow> rk p < rk n)"
    by (simp add: ranked_def list_all_iff)
  with assms(3) have "case PNode p of PStr k \<Rightarrow> True | PNode p \<Rightarrow> rk p < rk n" by blast
  then show ?thesis by simp
qed

lemma set_slots: "set (slots p n ps) = (if PNode p \<in> set ps then {n} else {})"
  by (auto simp: slots_def)

lemma fold_dict_set_fresh:
  "distinct (map fst d @ map nm ns) \<Longrightarrow>
   fold (\<lambda>n d. dict_set (nm n) n d) ns d = d @ map (\<lambda>n. (nm n, n)) ns"
proof (induction ns arbitrary: d)
  case Nil
  then show ?case by simp
next
  case (Cons n ns)
  have fr: "nm n \<notin> fst ` set d" using Cons.prems by auto
  have ds: "dict_set (nm n) n d = d @ [(nm n, n)]"
    using fr by (induction d) auto
  have "distinct (map fst (d @ [(nm n, n)]) @ map nm ns)" using Cons.prems by auto
  from Cons.IH[OF this] show ?case using ds by simp
qed

lemma sorted_parents_before:
  assumes inv: "sort_inv h U [] res"
    and i: "i < length res"
    and p: "p \<in> set U"
    and child: "rev res ! i \<in> set (children (h ! p))"
  shows "p \<in> set (take i (rev res))"
proof -
  from inv have d: "distinct res" and un: "set res = set U"
    and ch: "\<forall>k<length res. \<forall>c\<in>set (children (h ! (res ! k))). c \<in> set (take k res)"
    by (simp_all add: sort_inv_def)
  from p un have "p \<in> set res" by simp
  then obtain k where k: "k < length res" "res ! k = p" by (auto simp: in_set_conv_nth)
  let ?k' = "length res - 1 - i"
  have n: "rev res ! i = res ! ?k'" using i by (simp add: rev_nth)
  have k': "?k' < length res" using i by simp
  from ch k child have "rev res ! i \<in> set (take k res)" by blast
  then obtain j where j: "j < k" "res ! j = rev res ! i"
    using k(1) by (auto simp: in_set_conv_nth)
  then have "j = ?k'" using d k(1) k' n by (simp add: nth_eq_iff_index_eq)
  then have lt: "?k' < k" using j by simp
  let ?q = "length res - 1 - k"
  have q: "?q < i" using lt k(1) i by simp
  have "rev res ! ?q = res ! k" using k(1) by (simp add: rev_nth)
  then have "take i (rev res) ! ?q = p" using q k(2) by simp
  moreover have "?q < length (take i (rev res))" using q i by simp
  ultimately show ?thesis by (metis nth_mem)
qed

lemma wf_update_children:
  assumes wf: "wf_graph s"
  shows "\<exists>h. update_children (heap s) (values_of (nodes s)) = Inr h \<and>
     length h = length (heap s) \<and>
     (\<forall>r<length (heap s). name (h ! r) = name (heap s ! r) \<and> op (h ! r) = op (heap s ! r) \<and>
        parents (h ! r) = parents (heap s ! r)) \<and>
     (\<forall>n\<in>set (values_of (nodes s)). \<forall>c\<in>set (children (h ! n)).
        c \<in> set (values_of (nodes s)) \<and> PNode n \<in> set (parents (h ! c))) \<and>
     (\<forall>n\<in>set (values_of (nodes s)). \<forall>p. PNode p \<in> set (parents (h ! n)) \<longrightarrow>
        n \<in> set (children (h ! p)))"
proof -
  let ?ids = "values_of (nodes s)"
  let ?h0 = "heap s"
  note W = wf_graphD[OF wf]
  have pre: "\<forall>n\<in>set ?ids. n < length ?h0 \<and> (\<forall>x\<in>set (parents (?h0 ! n)). \<exists>p. x = PNode p)"
    using W(3) W(6) by blast
  from update_children_ok[OF pre] obtain h where
    uc: "update_children ?h0 ?ids = Inr h" and lh: "length h = length ?h0"
    and hr: "\<forall>r<length ?h0. name (h ! r) = name (?h0 ! r) \<and> op (h ! r) = op (?h0 ! r) \<and>
        parents (h ! r) = parents (?h0 ! r) \<and>
        children (h ! r) = children (?h0 ! r) @ concat (map (\<lambda>n. slots r n (parents (?h0 ! n))) ?ids)"
    by blast
  have par: "parents (h ! n) = parents (?h0 ! n)" if "n \<in> set ?ids" for n
    using hr W(3)[OF that] by simp
  have chE: "children (h ! n) =
      children (?h0 ! n) @ concat (map (\<lambda>m. slots n m (parents (?h0 ! m))) ?ids)"
    if "n \<in> set ?ids" for n
    using hr W(3)[OF that] by simp
  have a: "\<forall>n\<in>set ?ids. \<forall>c\<in>set (children (h ! n)).
        c \<in> set ?ids \<and> PNode n \<in> set (parents (h ! c))"
  proof (intro ballI)
    fix n c assume n: "n \<in> set ?ids" and c: "c \<in> set (children (h ! n))"
    from c chE[OF n] consider "c \<in> set (children (?h0 ! n))"
      | "c \<in> set (concat (map (\<lambda>m. slots n m (parents (?h0 ! m))) ?ids))" by auto
    then have "c \<in> set ?ids \<and> PNode n \<in> set (parents (?h0 ! c))"
    proof cases
      case 1
      from W(5)[OF n 1] show ?thesis .
    next
      case 2
      then obtain m where "m \<in> set ?ids" "c \<in> set (slots n m (parents (?h0 ! m)))" by auto
      then show ?thesis by (auto simp: set_slots split: if_splits)
    qed
    then show "c \<in> set ?ids \<and> PNode n \<in> set (parents (h ! c))" using par by simp
  qed
  have b: "\<forall>n\<in>set ?ids. \<forall>p. PNode p \<in> set (parents (h ! n)) \<longrightarrow> n \<in> set (children (h ! p))"
  proof (intro ballI allI impI)
    fix n p assume n: "n \<in> set ?ids" and p: "PNode p \<in> set (parents (h ! n))"
    then have p0: "PNode p \<in> set (parents (?h0 ! n))" using par by simp
    from W(6)[OF n p0] have pin: "p \<in> set ?ids" by simp
    have "n \<in> set (slots p n (parents (?h0 ! n)))" using p0 by (simp add: set_slots)
    then show "n \<in> set (children (h ! p))" unfolding chE[OF pin] using n by auto
  qed
  from hr have hr': "\<forall>r<length ?h0. name (h ! r) = name (?h0 ! r) \<and> op (h ! r) = op (?h0 ! r) \<and>
        parents (h ! r) = parents (?h0 ! r)" by blast
  from uc lh hr' a b show ?thesis by blast
qed

lemma done_graph_sorted:
  assumes wf: "wf_graph s"
    and uc: "update_children (heap s) (values_of (nodes s)) = Inr h"
    and psne: "filter (\<lambda>n. parents (h ! n) = []) (values_of (nodes s)) \<noteq> []"
    and res: "sort_loop h (filter (\<lambda>n. parents (h ! n) \<noteq> []) (values_of (nodes s))) [] = Some res"
  shows "sort_inv h (filter (\<lambda>n. parents (h ! n) \<noteq> []) (values_of (nodes s))) [] res"
    and "distinct (map (\<lambda>n. name (h ! n))
        (filter (\<lambda>n. parents (h ! n) = []) (values_of (nodes s)) @ rev res))"
    and "done_graph s = Some (Inr (s\<lparr>heap := h,
        parameter_nodes := Some (filter (\<lambda>n. parents (h ! n) = []) (values_of (nodes s))),
        nodes := map (\<lambda>n. (name (h ! n), n))
                   (filter (\<lambda>n. parents (h ! n) = []) (values_of (nodes s)) @ rev res)\<rparr>))"
proof -
  let ?ids = "values_of (nodes s)"
  let ?h0 = "heap s"
  note W = wf_graphD[OF wf]
  have len: "length ?ids = length (nodes s)" by (simp add: values_of_def)
  from wf_update_children[OF wf] obtain h' where
    uc': "update_children ?h0 ?ids = Inr h'" and lh': "length h' = length ?h0"
    and hr': "\<forall>r<length ?h0. name (h' ! r) = name (?h0 ! r) \<and> op (h' ! r) = op (?h0 ! r) \<and>
        parents (h' ! r) = parents (?h0 ! r)"
    and chD': "\<forall>n\<in>set ?ids. \<forall>c\<in>set (children (h' ! n)).
        c \<in> set ?ids \<and> PNode n \<in> set (parents (h' ! c))"
    by blast
  from uc uc' have hh: "h' = h" by simp
  note lh = lh'[unfolded hh] and hr = hr'[unfolded hh] and chD = chD'[unfolded hh]
  have nam: "name (h ! n) = name (?h0 ! n)" if "n \<in> set ?ids" for n
    using hr W(3)[OF that] by simp
  have idsD: "\<exists>i<length (nodes s). n = ?ids ! i" if "n \<in> set ?ids" for n
    using that len by (metis in_set_conv_nth)
  let ?ps = "filter (\<lambda>n. parents (h ! n) = []) ?ids"
  let ?U = "filter (\<lambda>n. parents (h ! n) \<noteq> []) ?ids"
  have cl: "\<forall>n\<in>set ?U. set (children (h ! n)) \<subseteq> set ?U"
  proof (intro ballI subsetI)
    fix n c assume "n \<in> set ?U" "c \<in> set (children (h ! n))"
    then have "n \<in> set ?ids" "c \<in> set (children (h ! n))" by simp_all
    with chD have "c \<in> set ?ids" "PNode n \<in> set (parents (h ! c))" by blast+
    then show "c \<in> set ?U" by auto
  qed
  have inv0: "sort_inv h ?U ?U []" using W(2) by (simp add: sort_inv_def)
  from sort_loop_inv[OF res, of ?U] cl inv0
  show inv: "sort_inv h ?U [] res" by blast
  have ts: "topological_sort h ?ids = Some (Inr (?ps, rev res))"
    unfolding topological_sort_eq using psne res by simp
  from inv have dres: "distinct res" and sres: "set res = set ?U" by (simp_all add: sort_inv_def)
  have dord: "distinct (?ps @ rev res)" using W(2) dres sres by auto
  have sord: "set (?ps @ rev res) \<subseteq> set ?ids" using sres by auto
  have inj: "inj_on (\<lambda>n. name (h ! n)) (set ?ids)"
  proof (rule inj_onI)
    fix a b assume a: "a \<in> set ?ids" and b: "b \<in> set ?ids" and e: "name (h ! a) = name (h ! b)"
    from idsD[OF a] obtain i where i: "i < length (nodes s)" "a = ?ids ! i" by blast
    from idsD[OF b] obtain j where j: "j < length (nodes s)" "b = ?ids ! j" by blast
    have "fst (nodes s ! i) = fst (nodes s ! j)"
      using e nam[OF a] nam[OF b] W(4)[OF i(1)] W(4)[OF j(1)] i(2) j(2) by simp
    then have "map fst (nodes s) ! i = map fst (nodes s) ! j" using i(1) j(1) by simp
    moreover have "i < length (map fst (nodes s))" "j < length (map fst (nodes s))"
      using i(1) j(1) by simp_all
    ultimately have "i = j" using W(1) nth_eq_iff_index_eq by blast
    then show "a = b" using i(2) j(2) by simp
  qed
  show dn: "distinct (map (\<lambda>n. name (h ! n)) (?ps @ rev res))"
    using dord sord inj by (simp only: distinct_map) (meson inj_on_subset)
  have fd: "fold (\<lambda>n d. dict_set (name (h ! n)) n d) (rev res)
              (fold (\<lambda>n d. dict_set (name (h ! n)) n d) ?ps []) =
            map (\<lambda>n. (name (h ! n), n)) (?ps @ rev res)"
  proof -
    have "fold (\<lambda>n d. dict_set (name (h ! n)) n d) (?ps @ rev res) [] =
            [] @ map (\<lambda>n. (name (h ! n), n)) (?ps @ rev res)"
      by (rule fold_dict_set_fresh) (use dn in simp)
    then show ?thesis by simp
  qed
  show "done_graph s = Some (Inr (s\<lparr>heap := h, parameter_nodes := Some ?ps,
        nodes := map (\<lambda>n. (name (h ! n), n)) (?ps @ rev res)\<rparr>))"
    by (simp add: done_graph_def uc ts fd)
qed

lemma done_graph_returnsD:
  assumes wf: "wf_graph s" and dg: "done_graph s = Some (Inr s')"
  shows "\<exists>h res. update_children (heap s) (values_of (nodes s)) = Inr h \<and>
     filter (\<lambda>n. parents (h ! n) = []) (values_of (nodes s)) \<noteq> [] \<and>
     sort_loop h (filter (\<lambda>n. parents (h ! n) \<noteq> []) (values_of (nodes s))) [] = Some res"
proof -
  from wf_update_children[OF wf] obtain h where
    uc: "update_children (heap s) (values_of (nodes s)) = Inr h" by blast
  have "filter (\<lambda>n. parents (h ! n) = []) (values_of (nodes s)) \<noteq> [] \<and>
     (\<exists>res. sort_loop h (filter (\<lambda>n. parents (h ! n) \<noteq> []) (values_of (nodes s))) [] = Some res)"
    using dg unfolding done_graph_def uc topological_sort_eq
    by (auto split: if_splits option.splits)
  with uc show ?thesis by blast
qed

lemma done_graph_terminates:
  assumes wf: "wf_graph s" and rk: "ranked rk s" and ne: "nodes s \<noteq> []"
  shows "\<exists>h res. update_children (heap s) (values_of (nodes s)) = Inr h \<and>
     filter (\<lambda>n. parents (h ! n) = []) (values_of (nodes s)) \<noteq> [] \<and>
     sort_loop h (filter (\<lambda>n. parents (h ! n) \<noteq> []) (values_of (nodes s))) [] = Some res"
proof -
  let ?ids = "values_of (nodes s)"
  let ?h0 = "heap s"
  note W = wf_graphD[OF wf]
  from wf_update_children[OF wf] obtain h where
    uc: "update_children ?h0 ?ids = Inr h"
    and hr: "\<forall>r<length ?h0. name (h ! r) = name (?h0 ! r) \<and> op (h ! r) = op (?h0 ! r) \<and>
        parents (h ! r) = parents (?h0 ! r)"
    and chD: "\<forall>n\<in>set ?ids. \<forall>c\<in>set (children (h ! n)).
        c \<in> set ?ids \<and> PNode n \<in> set (parents (h ! c))"
    by blast
  have par: "parents (h ! n) = parents (?h0 ! n)" if "n \<in> set ?ids" for n
    using hr W(3)[OF that] by simp
  let ?ps = "filter (\<lambda>n. parents (h ! n) = []) ?ids"
  let ?U = "filter (\<lambda>n. parents (h ! n) \<noteq> []) ?ids"
  \<comment> \<open>a node of least rank has no parent\<close>
  have idne: "set ?ids \<noteq> {}" using ne by (simp add: values_of_def)
  have fin: "finite (rk ` set ?ids)" and ne': "rk ` set ?ids \<noteq> {}" using idne by simp_all
  then have "Min (rk ` set ?ids) \<in> rk ` set ?ids" by (rule Min_in)
  then obtain n where n: "n \<in> set ?ids" "rk n = Min (rk ` set ?ids)" by auto
  have "parents (?h0 ! n) = []"
  proof (rule ccontr)
    assume "parents (?h0 ! n) \<noteq> []"
    then obtain x where x: "x \<in> set (parents (?h0 ! n))" by (cases "parents (?h0 ! n)") auto
    from W(6)[OF n(1) x] obtain p where p: "x = PNode p" "p \<in> set ?ids" by blast
    from rankedD[OF rk n(1)] x p have "rk p < rk n" by simp
    moreover have "Min (rk ` set ?ids) \<le> rk p" using fin p(2) by (intro Min_le) auto
    ultimately show False using n(2) by simp
  qed
  then have "n \<in> set ?ps" using n(1) par by simp
  then have psne: "?ps \<noteq> []" by (auto simp: filter_empty_conv)
  have cl: "\<forall>n\<in>set ?U. set (children (h ! n)) \<subseteq> set ?U"
  proof (intro ballI subsetI)
    fix n c assume "n \<in> set ?U" "c \<in> set (children (h ! n))"
    then have "n \<in> set ?ids" "c \<in> set (children (h ! n))" by simp_all
    with chD have "c \<in> set ?ids" "PNode n \<in> set (parents (h ! c))" by blast+
    then show "c \<in> set ?U" by auto
  qed
  have rk': "\<forall>n\<in>set ?U. \<forall>c\<in>set (children (h ! n)). rk n < rk c"
  proof (intro ballI)
    fix n c assume "n \<in> set ?U" "c \<in> set (children (h ! n))"
    then have "n \<in> set ?ids" "c \<in> set (children (h ! n))" by simp_all
    with chD have c: "c \<in> set ?ids" "PNode n \<in> set (parents (h ! c))" by blast+
    then have "PNode n \<in> set (parents (?h0 ! c))" using par by simp
    from rankedD[OF rk c(1) this] show "rk n < rk c" .
  qed
  have inv0: "sort_inv h ?U ?U []" using W(2) by (simp add: sort_inv_def)
  from sort_loop_returns[OF cl rk' inv0] obtain res where
    "sort_loop h ?U [] = Some res" by blast
  with uc psne show ?thesis by blast
qed

lemma done_graph_order:
  assumes wf: "wf_graph s" and dg: "done_graph s = Some (Inr s')"
  shows "\<exists>ps ins.
      parameter_nodes s' = Some ps \<and> values_of (nodes s') = ps @ ins \<and> ps \<noteq> [] \<and>
      distinct (ps @ ins) \<and> set (ps @ ins) = set (values_of (nodes s)) \<and>
      (\<forall>n\<in>set (ps @ ins). parents (heap s' ! n) = parents (heap s ! n)) \<and>
      (\<forall>n\<in>set ps. parents (heap s' ! n) = []) \<and>
      (\<forall>n\<in>set ins. parents (heap s' ! n) \<noteq> []) \<and>
      (\<forall>i<length ins. \<forall>p. PNode p \<in> set (parents (heap s' ! (ins ! i))) \<longrightarrow>
          p \<in> set ps \<or> p \<in> set (take i ins)) \<and>
      (\<forall>i<length (ps @ ins). \<forall>p. PNode p \<in> set (parents (heap s' ! ((ps @ ins) ! i))) \<longrightarrow>
          p \<in> set (take i (ps @ ins))) \<and>
      output_table s' = output_table s \<and> attr_X s' = attr_X s \<and>
      nodes s' = map (\<lambda>n. (name (heap s' ! n), n)) (ps @ ins) \<and>
      distinct (map fst (nodes s')) \<and>
      (\<forall>n\<in>set (ps @ ins). n < length (heap s') \<and>
          name (heap s' ! n) = name (heap s ! n) \<and> op (heap s' ! n) = op (heap s ! n) \<and>
          (\<forall>x\<in>set (parents (heap s' ! n)). \<exists>p. x = PNode p \<and> p \<in> set (ps @ ins)) \<and>
          (\<forall>c\<in>set (children (heap s' ! n)).
              c \<in> set (ps @ ins) \<and> PNode n \<in> set (parents (heap s' ! c))))"
proof -
  let ?ids = "values_of (nodes s)"
  note W = wf_graphD[OF wf]
  from done_graph_returnsD[OF wf dg] obtain h res where
    uc: "update_children (heap s) ?ids = Inr h"
    and psne: "filter (\<lambda>n. parents (h ! n) = []) ?ids \<noteq> []"
    and res: "sort_loop h (filter (\<lambda>n. parents (h ! n) \<noteq> []) ?ids) [] = Some res"
    by blast
  note S = done_graph_sorted[OF wf uc psne res]
  from wf_update_children[OF wf] obtain h' where
    uc': "update_children (heap s) ?ids = Inr h'" and lh': "length h' = length (heap s)"
    and hr': "\<forall>r<length (heap s). name (h' ! r) = name (heap s ! r) \<and> op (h' ! r) = op (heap s ! r) \<and>
        parents (h' ! r) = parents (heap s ! r)"
    and chD': "\<forall>n\<in>set ?ids. \<forall>c\<in>set (children (h' ! n)).
        c \<in> set ?ids \<and> PNode n \<in> set (parents (h' ! c))"
    and pch': "\<forall>n\<in>set ?ids. \<forall>p. PNode p \<in> set (parents (h' ! n)) \<longrightarrow> n \<in> set (children (h' ! p))"
    by blast
  from uc uc' have hh: "h' = h" by simp
  note lh = lh'[unfolded hh] and hr = hr'[unfolded hh] and chD = chD'[unfolded hh]
    and pch = pch'[unfolded hh]
  let ?ps = "filter (\<lambda>n. parents (h ! n) = []) ?ids"
  let ?U = "filter (\<lambda>n. parents (h ! n) \<noteq> []) ?ids"
  let ?ins = "rev res"
  let ?s' = "s\<lparr>heap := h, parameter_nodes := Some ?ps,
        nodes := map (\<lambda>n. (name (h ! n), n)) (?ps @ ?ins)\<rparr>"
  from S(3) dg have s': "s' = ?s'" by simp
  note inv = S(1) and dn = S(2)
  from inv have dres: "distinct res" and sres: "set res = set ?U" by (simp_all add: sort_inv_def)
  have pe: "parents (h ! m) = parents (heap s ! m)" if "m \<in> set ?ids" for m
    using hr W(3)[OF that] by simp
  have parD: "\<exists>p. x = PNode p \<and> p \<in> set ?ids" if "n \<in> set ?ids" "x \<in> set (parents (h ! n))" for n x
    using W(6)[OF that(1)] that(2) pe[OF that(1)] by simp
  have c1: "parameter_nodes ?s' = Some ?ps" by simp
  have c2: "values_of (nodes ?s') = ?ps @ ?ins" by (simp add: values_of_def comp_def)
  have c3: "distinct (?ps @ ?ins)" using W(2) dres sres by auto
  have c4: "set (?ps @ ?ins) = set ?ids" using sres by auto
  have c5: "\<forall>n\<in>set (?ps @ ?ins). parents (heap ?s' ! n) = parents (heap s ! n)"
    using c4 pe by simp
  have c6: "\<forall>n\<in>set ?ps. parents (heap ?s' ! n) = []" by simp
  have c7: "\<forall>n\<in>set ?ins. parents (heap ?s' ! n) \<noteq> []" using sres by simp
  have c8: "\<forall>i<length ?ins. \<forall>p. PNode p \<in> set (parents (heap ?s' ! (?ins ! i))) \<longrightarrow>
          p \<in> set ?ps \<or> p \<in> set (take i ?ins)"
  proof (intro allI impI)
    fix i p assume i: "i < length ?ins" and pp: "PNode p \<in> set (parents (heap ?s' ! (?ins ! i)))"
    let ?n = "?ins ! i"
    have nin: "?n \<in> set ?ids" using i c4 by (metis UnCI nth_mem set_append)
    have pp0: "PNode p \<in> set (parents (h ! ?n))" using pp by simp
    from parD[OF nin pp0] have pin: "p \<in> set ?ids" by simp
    show "p \<in> set ?ps \<or> p \<in> set (take i ?ins)"
    proof (cases "parents (h ! p) = []")
      case True
      then show ?thesis using pin by simp
    next
      case False
      then have pU: "p \<in> set ?U" using pin by simp
      have "?n \<in> set (children (h ! p))" using pch nin pp0 by blast
      from sorted_parents_before[OF inv _ pU this] i show ?thesis by simp
    qed
  qed
  have c9: "\<forall>i<length (?ps @ ?ins). \<forall>p. PNode p \<in> set (parents (heap ?s' ! ((?ps @ ?ins) ! i))) \<longrightarrow>
          p \<in> set (take i (?ps @ ?ins))"
  proof (intro allI impI)
    fix i p assume i: "i < length (?ps @ ?ins)"
      and pp: "PNode p \<in> set (parents (heap ?s' ! ((?ps @ ?ins) ! i)))"
    show "p \<in> set (take i (?ps @ ?ins))"
    proof (cases "i < length ?ps")
      case True
      then have "?ps ! i \<in> set ?ps" by (rule nth_mem)
      then have "(?ps @ ?ins) ! i \<in> set ?ps" using True by (simp only: nth_append if_True)
      with c6 pp show ?thesis by simp
    next
      case False
      then have j: "i - length ?ps < length ?ins" and e: "(?ps @ ?ins) ! i = ?ins ! (i - length ?ps)"
        using i by (simp_all add: nth_append)
      from c8 j pp e have "p \<in> set ?ps \<or> p \<in> set (take (i - length ?ps) ?ins)" by simp
      then show ?thesis using False by auto
    qed
  qed
  have c10: "output_table ?s' = output_table s \<and> attr_X ?s' = attr_X s" by simp
  have c11: "nodes ?s' = map (\<lambda>n. (name (heap ?s' ! n), n)) (?ps @ ?ins)" by simp
  have c12: "distinct (map fst (nodes ?s'))" using dn by (simp add: comp_def)
  have c13: "\<forall>n\<in>set (?ps @ ?ins). n < length (heap ?s') \<and>
          name (heap ?s' ! n) = name (heap s ! n) \<and> op (heap ?s' ! n) = op (heap s ! n) \<and>
          (\<forall>x\<in>set (parents (heap ?s' ! n)). \<exists>p. x = PNode p \<and> p \<in> set (?ps @ ?ins)) \<and>
          (\<forall>c\<in>set (children (heap ?s' ! n)).
              c \<in> set (?ps @ ?ins) \<and> PNode n \<in> set (parents (heap ?s' ! c)))"
  proof
    fix n assume "n \<in> set (?ps @ ?ins)"
    then have nin: "n \<in> set ?ids" by (simp only: c4)
    have a: "n < length (heap ?s')" using W(3)[OF nin] lh by simp
    have a': "name (heap ?s' ! n) = name (heap s ! n) \<and> op (heap ?s' ! n) = op (heap s ! n)"
      using hr W(3)[OF nin] by simp
    have b: "\<forall>x\<in>set (parents (heap ?s' ! n)). \<exists>p. x = PNode p \<and> p \<in> set (?ps @ ?ins)"
      using parD[OF nin] unfolding c4 by simp
    have c: "\<forall>c\<in>set (children (heap ?s' ! n)).
              c \<in> set (?ps @ ?ins) \<and> PNode n \<in> set (parents (heap ?s' ! c))"
      using chD nin unfolding c4 by simp
    from a a' b c show "n < length (heap ?s') \<and>
          name (heap ?s' ! n) = name (heap s ! n) \<and> op (heap ?s' ! n) = op (heap s ! n) \<and>
          (\<forall>x\<in>set (parents (heap ?s' ! n)). \<exists>p. x = PNode p \<and> p \<in> set (?ps @ ?ins)) \<and>
          (\<forall>c\<in>set (children (heap ?s' ! n)).
              c \<in> set (?ps @ ?ins) \<and> PNode n \<in> set (parents (heap ?s' ! c)))" by blast
  qed
  from psne c1 c2 c3 c4 c5 c6 c7 c8 c9 c10 c11 c12 c13 show ?thesis unfolding s' by blast
qed



lemma done_wf_graph:
  assumes wf: "wf_graph s" and dg: "done_graph s = Some (Inr s')"
  shows "wf_graph s'"
proof -
  from done_graph_order[OF wf dg] obtain ps ins where
    vo: "values_of (nodes s') = ps @ ins"
    and d: "distinct (ps @ ins)"
    and ns: "nodes s' = map (\<lambda>n. (name (heap s' ! n), n)) (ps @ ins)"
    and dn: "distinct (map fst (nodes s'))"
    and rest: "\<forall>n\<in>set (ps @ ins). n < length (heap s') \<and>
          name (heap s' ! n) = name (heap s ! n) \<and> op (heap s' ! n) = op (heap s ! n) \<and>
          (\<forall>x\<in>set (parents (heap s' ! n)). \<exists>p. x = PNode p \<and> p \<in> set (ps @ ins)) \<and>
          (\<forall>c\<in>set (children (heap s' ! n)).
              c \<in> set (ps @ ins) \<and> PNode n \<in> set (parents (heap s' ! c)))"
    by blast
  define ord where "ord = ps @ ins"
  note vo' = vo[folded ord_def] and d' = d[folded ord_def]
    and ns' = ns[folded ord_def] and rest' = rest[folded ord_def]
  show ?thesis
  proof (rule wf_graphI)
    show "distinct (map fst (nodes s'))" by (rule dn)
    show "distinct (values_of (nodes s'))" unfolding vo' by (rule d')
    show "n < length (heap s')" if "n \<in> set (values_of (nodes s'))" for n
      using that rest' unfolding vo' by blast
    show "name (heap s' ! (values_of (nodes s') ! i)) = fst (nodes s' ! i)" if "i < length (nodes s')" for i
    proof -
      have "i < length ord" using that by (subst (asm) ns') simp
      then show ?thesis unfolding vo' by (subst ns') simp
    qed
    show "c \<in> set (values_of (nodes s')) \<and> PNode n \<in> set (parents (heap s' ! c))"
      if "n \<in> set (values_of (nodes s'))" "c \<in> set (children (heap s' ! n))" for n c
      using that rest' unfolding vo' by blast
    show "\<exists>p. x = PNode p \<and> p \<in> set (values_of (nodes s'))"
      if "n \<in> set (values_of (nodes s'))" "x \<in> set (parents (heap s' ! n))" for n x
      using that rest' unfolding vo' by blast
  qed
qed

lemma resolve_nodes:
  "resolve d xs = Inr rs \<Longrightarrow> \<forall>x\<in>set rs. \<exists>p. x = PNode p \<and> p \<in> set (values_of d)"
proof (induction d xs arbitrary: rs rule: resolve.induct)
  case (1 d)
  then show ?case by simp
next
  case (2 d k xs)
  from "2.prems" obtain r rs' where r: "map_of d k = Some r"
    and rs': "resolve d xs = Inr rs'" and rs: "rs = PNode r # rs'"
    by (auto split: option.splits sum.splits)
  from r have "(k, r) \<in> set d" by (rule map_of_SomeD)
  then have "r \<in> set (values_of d)" by (force simp: values_of_def)
  moreover from "2.IH"[OF r rs'] have "\<forall>x\<in>set rs'. \<exists>p. x = PNode p \<and> p \<in> set (values_of d)" .
  ultimately show ?case using rs by simp
next
  case (3 d r xs)
  then show ?case by simp
qed

lemma add_wf_graph:
  assumes wf: "wf_graph s" and ad: "add opr nm inputs s = Inr (r, s')"
    and refs: "\<forall>xs. inputs = Some xs \<and> \<not> (xs \<noteq> [] \<and> is_str (hd xs)) \<longrightarrow>
        (\<forall>x\<in>set xs. \<exists>p. x = PNode p \<and> p \<in> set (values_of (nodes s)))"
  shows "wf_graph s'" and "ranked (\<lambda>n. n) s \<Longrightarrow> ranked (\<lambda>n. n) s'"
proof -
  let ?ids = "values_of (nodes s)"
  let ?r = "length (heap s)"
  note W = wf_graphD[OF wf]
  from ad have fresh: "nm \<notin> fst ` set (nodes s)" by (auto simp: add_def split: if_splits)
  have "\<exists>ins. s' = snd (register opr nm ins s) \<and>
      (\<forall>x\<in>set (parents (Node nm opr ins)). \<exists>p. x = PNode p \<and> p \<in> set ?ids)"
  proof (cases inputs)
    case None
    with ad fresh have "s' = snd (register opr nm None s)"
      by (auto simp: add_def split: if_splits)
    then show ?thesis by (intro exI[of _ None]) (simp add: Node_def)
  next
    case (Some xs)
    show ?thesis
    proof (cases "xs \<noteq> [] \<and> is_str (hd xs)")
      case True
      with ad fresh Some obtain rs where rs: "resolve (nodes s) xs = Inr rs"
        and s': "s' = snd (register opr nm (Some rs) s)"
        by (auto simp: add_def split: if_splits sum.splits)
      from resolve_nodes[OF rs] s' show ?thesis
        by (intro exI[of _ "Some rs"]) (simp add: Node_def)
    next
      case False
      with ad fresh Some have s': "s' = snd (register opr nm (Some xs) s)"
        by (auto simp: add_def split: if_splits sum.splits)
      from refs Some False have "\<forall>x\<in>set xs. \<exists>p. x = PNode p \<and> p \<in> set ?ids" by blast
      with s' show ?thesis by (intro exI[of _ "Some xs"]) (simp add: Node_def)
    qed
  qed
  then obtain ins where s': "s' = snd (register opr nm ins s)"
    and pin: "\<forall>x\<in>set (parents (Node nm opr ins)). \<exists>p. x = PNode p \<and> p \<in> set ?ids" by blast
  let ?n = "Node nm opr ins"
  have hp: "heap s' = heap s @ [?n]" and np: "nodes s' = nodes s @ [(nm, ?r)]"
    using s' fresh by (simp_all add: register_def dict_set_fresh)
  have ids': "values_of (nodes s') = ?ids @ [?r]" using np by (simp add: values_of_def)
  have old: "heap s' ! n = heap s ! n" if "n \<in> set ?ids" for n
    using W(3)[OF that] hp by (simp add: nth_append)
  have new: "heap s' ! ?r = ?n" using hp by simp
  have rnot: "?r \<notin> set ?ids" using W(3) by blast
  have len: "length ?ids = length (nodes s)" by (simp add: values_of_def)
  show "wf_graph s'"
  proof (rule wf_graphI)
    show "distinct (map fst (nodes s'))" using W(1) fresh np by simp
    show "distinct (values_of (nodes s'))" unfolding ids' using W(2) rnot by simp
    show "n < length (heap s')" if "n \<in> set (values_of (nodes s'))" for n
    proof (cases "n = ?r")
      case True
      then show ?thesis using hp by simp
    next
      case False
      with that have "n \<in> set ?ids" unfolding ids' by simp
      from W(3)[OF this] show ?thesis using hp by simp
    qed
    show "name (heap s' ! (values_of (nodes s') ! i)) = fst (nodes s' ! i)" if "i < length (nodes s')" for i
    proof (cases "i < length (nodes s)")
      case True
      then have m: "?ids ! i \<in> set ?ids" using len by simp
      have v: "values_of (nodes s') ! i = ?ids ! i" using True len by (simp add: ids' nth_append)
      have f: "fst (nodes s' ! i) = fst (nodes s ! i)" using True by (simp add: np nth_append)
      show ?thesis unfolding v f old[OF m] by (rule W(4)[OF True])
    next
      case False
      with that np have i: "i = length (nodes s)" by simp
      have v: "values_of (nodes s') ! i = ?r" using i len by (simp add: ids' nth_append)
      have f: "fst (nodes s' ! i) = nm" using i by (simp add: np nth_append)
      show ?thesis unfolding v f new by (simp add: Node_def)
    qed
    show "c \<in> set (values_of (nodes s')) \<and> PNode n \<in> set (parents (heap s' ! c))"
      if "n \<in> set (values_of (nodes s'))" "c \<in> set (children (heap s' ! n))" for n c
    proof (cases "n = ?r")
      case True
      with that(2) new show ?thesis by (simp add: Node_def)
    next
      case False
      with that(1) have n: "n \<in> set ?ids" unfolding ids' by simp
      from that(2) old[OF n] have "c \<in> set (children (heap s ! n))" by simp
      from W(5)[OF n this] have "c \<in> set ?ids" "PNode n \<in> set (parents (heap s ! c))" by simp_all
      then show ?thesis unfolding ids' using old[of c] by simp
    qed
    show "\<exists>p. x = PNode p \<and> p \<in> set (values_of (nodes s'))"
      if "n \<in> set (values_of (nodes s'))" "x \<in> set (parents (heap s' ! n))" for n x
    proof (cases "n = ?r")
      case True
      with that(2) new pin show ?thesis unfolding ids' by auto
    next
      case False
      with that(1) have n: "n \<in> set ?ids" unfolding ids' by simp
      from that(2) old[OF n] have "x \<in> set (parents (heap s ! n))" by simp
      from W(6)[OF n this] show ?thesis unfolding ids' by auto
    qed
  qed
  show "ranked (\<lambda>n. n) s'" if rk: "ranked (\<lambda>n. n) s"
    unfolding ranked_def list_all_iff
  proof (intro ballI)
    fix n x assume n: "n \<in> set (values_of (nodes s'))" and x: "x \<in> set (parents (heap s' ! n))"
    show "case x of PStr k \<Rightarrow> True | PNode p \<Rightarrow> p < n"
    proof (cases "n = ?r")
      case True
      with x new pin obtain p where "x = PNode p" "p \<in> set ?ids" by auto
      with W(3) True show ?thesis by auto
    next
      case False
      with n have n': "n \<in> set ?ids" unfolding ids' by simp
      from x old[OF n'] have x': "x \<in> set (parents (heap s ! n))" by simp
      from W(6)[OF n' x'] obtain p where p: "x = PNode p" by blast
      from rankedD[OF rk n'] x' p have "p < n" by simp
      with p show ?thesis by simp
    qed
  qed
qed

lemma wf_Graph: "wf_graph Graph \<and> ranked (\<lambda>n. n) Graph"
  by (simp add: wf_graph_def ranked_def Graph_def values_of_def)

lemma diamond_built:
  "\<exists>s1 s2 s3 s4 s5.
     add (OpValue 0) ''A'' None (Graph :: int state) = Inr (0, s1) \<and>
     add (OpValue 1) ''X'' None s1 = Inr (1, s2) \<and>
     add (OpValue 2) ''Y'' None s2 = Inr (2, s3) \<and>
     add OpSum ''B'' (Some [PNode 0, PNode 1]) s3 = Inr (3, s4) \<and>
     add OpSum ''C'' (Some [PStr ''A'', PStr ''Y'']) s4 = Inr (4, s5) \<and>
     add OpSum ''D'' (Some [PNode 3, PNode 4]) s5 = Inr (5, diamond)"
  by (simp add: add_def register_def Graph_def diamond_def OpSum_def eval_nat_numeral)



lemma wf_late: "wf_graph late \<and> nodes late \<noteq> [] \<and> ranked (\<lambda>n. if n = 1 then 3 else n) late"
  by (simp add: wf_graph_def ranked_def late_def values_of_def Node_def upt_rec)

lemma done_graph_late:
  "done_graph late = Some (Inr
     \<lparr>heap = [\<lparr>name = ''A'', op = OpValue 0, parents = [], children = [1, 2, 2]\<rparr>,
              \<lparr>name = ''B'', op = OpSum, parents = [PNode 0, PNode 2], children = []\<rparr>,
              \<lparr>name = ''C'', op = OpSum, parents = [PNode 0, PNode 0], children = [1]\<rparr>],
      attr_X = (\<lambda>i. None),
      nodes = [(''A'', 0), (''C'', 2), (''B'', 1)],
      parameter_nodes = Some [0], output_table = None\<rparr>)"
  by (simp add: done_graph_def late_def values_of_def Node_def topological_sort_def
      sort_loop.simps sweep.simps is_sink_def Let_def)

lemma done_graph_with_stranger:
  "done_graph with_stranger = Some (Inr
     \<lparr>heap = [\<lparr>name = ''A'', op = OpValue 0, parents = [], children = []\<rparr>,
              \<lparr>name = ''X'', op = OpValue 1, parents = [], children = [2, 2]\<rparr>,
              \<lparr>name = ''B'', op = OpSum, parents = [PNode 1, PNode 1], children = []\<rparr>],
      attr_X = (\<lambda>i. None),
      nodes = [(''A'', 0), (''B'', 2)],
      parameter_nodes = Some [0], output_table = None\<rparr>)"
  by (simp add: done_graph_def with_stranger_def values_of_def Node_def topological_sort_def
      sort_loop.simps sweep.simps is_sink_def Let_def)

text \<open>
  Claim C1, amended: in a graph whose parents are all nodes of the graph (\<open>wf_graph\<close>, of
  which nothing is asked about the order of the dictionary), whenever \<open>done\<close> returns, the
  order it leaves in \<open>nodes\<close> is the parameter nodes (the nodes without parents, stored in
  \<open>parameter_nodes\<close>) followed by the internal nodes (the nodes with parents); it holds
  every node of the graph once.  Every parent of an internal node is a parameter node or
  stands before it in the internal sequence; so in the whole order every parent of a node
  stands before that node.  And \<open>done\<close> does return when the graph has a node and no cycle
  (a rank \<open>rk\<close> grows from every parent to its node).
\<close>

theorem done_topological_order:
  "wf_graph s \<longrightarrow>
   (\<forall>s'. done_graph s = Some (Inr s') \<longrightarrow>
      (\<exists>ps ins.
         parameter_nodes s' = Some ps \<and> values_of (nodes s') = ps @ ins \<and>
         distinct (ps @ ins) \<and> set (ps @ ins) = set (values_of (nodes s)) \<and>
         (\<forall>n\<in>set (ps @ ins). parents (heap s' ! n) = parents (heap s ! n)) \<and>
         (\<forall>n\<in>set ps. parents (heap s' ! n) = []) \<and>
         (\<forall>n\<in>set ins. parents (heap s' ! n) \<noteq> []) \<and>
         (\<forall>i<length ins. \<forall>p. PNode p \<in> set (parents (heap s' ! (ins ! i))) \<longrightarrow>
             p \<in> set ps \<or> p \<in> set (take i ins)) \<and>
         (\<forall>i<length (ps @ ins). \<forall>p. PNode p \<in> set (parents (heap s' ! ((ps @ ins) ! i))) \<longrightarrow>
             p \<in> set (take i (ps @ ins))))) \<and>
   (nodes s \<noteq> [] \<and> ranked rk s \<longrightarrow> (\<exists>s'. done_graph s = Some (Inr s')))"
proof (intro impI conjI allI)
  fix s' assume wf: "wf_graph s" and dg: "done_graph s = Some (Inr s')"
  from done_graph_order[OF wf dg] obtain ps ins where
    "parameter_nodes s' = Some ps" "values_of (nodes s') = ps @ ins"
    "distinct (ps @ ins)" "set (ps @ ins) = set (values_of (nodes s))"
    "\<forall>n\<in>set (ps @ ins). parents (heap s' ! n) = parents (heap s ! n)"
    "\<forall>n\<in>set ps. parents (heap s' ! n) = []"
    "\<forall>n\<in>set ins. parents (heap s' ! n) \<noteq> []"
    "\<forall>i<length ins. \<forall>p. PNode p \<in> set (parents (heap s' ! (ins ! i))) \<longrightarrow>
          p \<in> set ps \<or> p \<in> set (take i ins)"
    "\<forall>i<length (ps @ ins). \<forall>p. PNode p \<in> set (parents (heap s' ! ((ps @ ins) ! i))) \<longrightarrow>
          p \<in> set (take i (ps @ ins))"
    by blast
  then show "\<exists>ps ins.
         parameter_nodes s' = Some ps \<and> values_of (nodes s') = ps @ ins \<and>
         distinct (ps @ ins) \<and> set (ps @ ins) = set (values_of (nodes s)) \<and>
         (\<forall>n\<in>set (ps @ ins). parents (heap s' ! n) = parents (heap s ! n)) \<and>
         (\<forall>n\<in>set ps. parents (heap s' ! n) = []) \<and>
         (\<forall>n\<in>set ins. parents (heap s' ! n) \<noteq> []) \<and>
         (\<forall>i<length ins. \<forall>p. PNode p \<in> set (parents (heap s' ! (ins ! i))) \<longrightarrow>
             p \<in> set ps \<or> p \<in> set (take i ins)) \<and>
         (\<forall>i<length (ps @ ins). \<forall>p. PNode p \<in> set (parents (heap s' ! ((ps @ ins) ! i))) \<longrightarrow>
             p \<in> set (take i (ps @ ins)))"
    by blast
next
  assume wf: "wf_graph s" and "nodes s \<noteq> [] \<and> ranked rk s"
  then have ne: "nodes s \<noteq> []" and rk: "ranked rk s" by simp_all
  from done_graph_terminates[OF wf rk ne] obtain h res where
    uc: "update_children (heap s) (values_of (nodes s)) = Inr h"
    and psne: "filter (\<lambda>n. parents (h ! n) = []) (values_of (nodes s)) \<noteq> []"
    and res: "sort_loop h (filter (\<lambda>n. parents (h ! n) \<noteq> []) (values_of (nodes s))) [] = Some res"
    by blast
  from done_graph_sorted(3)[OF wf uc psne res] show "\<exists>s'. done_graph s = Some (Inr s')" by blast
qed

text \<open>
  The theorem at the graph \<open>late\<close>, whose dictionary holds \<open>B\<close> before its parent \<open>C\<close>:
  \<open>done\<close> returns and leaves the order \<open>A\<close>, \<open>C\<close>, \<open>B\<close>.
\<close>

theorem done_topological_order_witness:
  "\<exists>s' ps ins. done_graph late = Some (Inr s') \<and>
      values_of (nodes late) = [0, 1, 2] \<and> values_of (nodes s') = [0, 2, 1] \<and>
      parameter_nodes s' = Some ps \<and> values_of (nodes s') = ps @ ins \<and>
      distinct (ps @ ins) \<and> set (ps @ ins) = set (values_of (nodes late)) \<and>
      (\<forall>n\<in>set (ps @ ins). parents (heap s' ! n) = parents (heap late ! n)) \<and>
      (\<forall>n\<in>set ps. parents (heap s' ! n) = []) \<and>
      (\<forall>n\<in>set ins. parents (heap s' ! n) \<noteq> []) \<and>
      (\<forall>i<length ins. \<forall>p. PNode p \<in> set (parents (heap s' ! (ins ! i))) \<longrightarrow>
          p \<in> set ps \<or> p \<in> set (take i ins)) \<and>
      (\<forall>i<length (ps @ ins). \<forall>p. PNode p \<in> set (parents (heap s' ! ((ps @ ins) ! i))) \<longrightarrow>
          p \<in> set (take i (ps @ ins)))"
proof -
  note T = done_topological_order [of late "\<lambda>n. if n = 1 then 3 else n"]
  from T wf_late obtain s' where dg: "done_graph late = Some (Inr s')" by blast
  from dg have v: "values_of (nodes s') = [0, 2, 1]"
    unfolding done_graph_late by (auto simp: values_of_def)
  have v0: "values_of (nodes late) = [0, 1, 2]" by (simp add: late_def values_of_def)
  from T wf_late dg obtain ps ins where
    "parameter_nodes s' = Some ps \<and> values_of (nodes s') = ps @ ins \<and>
      distinct (ps @ ins) \<and> set (ps @ ins) = set (values_of (nodes late)) \<and>
      (\<forall>n\<in>set (ps @ ins). parents (heap s' ! n) = parents (heap late ! n)) \<and>
      (\<forall>n\<in>set ps. parents (heap s' ! n) = []) \<and>
      (\<forall>n\<in>set ins. parents (heap s' ! n) \<noteq> []) \<and>
      (\<forall>i<length ins. \<forall>p. PNode p \<in> set (parents (heap s' ! (ins ! i))) \<longrightarrow>
          p \<in> set ps \<or> p \<in> set (take i ins)) \<and>
      (\<forall>i<length (ps @ ins). \<forall>p. PNode p \<in> set (parents (heap s' ! ((ps @ ins) ! i))) \<longrightarrow>
          p \<in> set (take i (ps @ ins)))"
    by blast
  with dg v v0 show ?thesis by blast
qed

text \<open>
  Claim C1 as stated (for every finalized graph) fails: \<open>Graph.add\<close> accepts as parents
  the node \<open>X\<close>, which was never added to the graph, \<open>done\<close> returns, and the order it
  leaves is \<open>A\<close>, \<open>B\<close>: the parent \<open>X\<close> of \<open>B\<close> stands nowhere in it, so not before \<open>B\<close>.
\<close>

theorem done_parent_outside_graph_counterexample:
  "add OpSum ''B'' (Some [PNode 1, PNode 1])
      \<lparr>heap = [Node ''A'' (OpValue 0) None, Node ''X'' (OpValue 1) None],
       attr_X = (\<lambda>i. None), nodes = [(''A'', 0)],
       parameter_nodes = None, output_table = None\<rparr> = Inr (2, with_stranger) \<and>
   (\<exists>s'. done_graph with_stranger = Some (Inr s') \<and>
      parameter_nodes s' = Some [0] \<and> values_of (nodes s') = [0, 2] \<and>
      parents (heap s' ! 2) = [PNode 1, PNode 1] \<and>
      1 \<notin> set (values_of (nodes s')))"
proof -
  have "add OpSum ''B'' (Some [PNode 1, PNode 1])
      \<lparr>heap = [Node ''A'' (OpValue 0) None, Node ''X'' (OpValue 1) None],
       attr_X = (\<lambda>i. None), nodes = [(''A'', 0)],
       parameter_nodes = None, output_table = None\<rparr> = Inr (2, with_stranger)"
    by (simp add: add_def register_def with_stranger_def OpSum_def eval_nat_numeral)
  then show ?thesis
    unfolding done_graph_with_stranger by (simp add: values_of_def)
qed


section \<open>Forward propagation\<close>










lemma forward_finalized:
  "finalized s \<Longrightarrow> forward s pt = Inr (out, tbl, s') \<Longrightarrow> finalized s'"
  by (auto simp: forward_def finalized_def Let_def split: option.splits if_splits sum.splits)

lemma forward_op_OpValue_err: "forward_op Y (OpValue i) args \<noteq> Inl MissingParameter"
  by (simp split: option.splits)




lemma finalized_diamond_done: "finalized diamond_done"
  by (simp add: finalized_def diamond_done_def values_of_def Let_def upt_rec)








end
